theory Spec2Isabelle
  imports Main "HOL-Library.Word"
begin

unbundle bit_operations_syntax

section \<open>Byte strings and Python slices\<close>

type_synonym byte = "8 word"
type_synonym bytes = "byte list"
type_synonym block = "128 word"

text \<open>
  Python's \<^verbatim>\<open>xs[:n]\<close> and \<^verbatim>\<open>xs[n:]\<close> for an integer \<open>n\<close>: a negative
  bound counts from the end, and every bound is clamped to the sequence.
\<close>

definition slice_to :: "'a list \<Rightarrow> int \<Rightarrow> 'a list" where
  "slice_to xs n = (if 0 \<le> n then take (nat n) xs else take (nat (int (length xs) + n)) xs)"

definition slice_from :: "'a list \<Rightarrow> int \<Rightarrow> 'a list" where
  "slice_from xs n = (if 0 \<le> n then drop (nat n) xs else drop (nat (int (length xs) + n)) xs)"

text \<open>\<^verbatim>\<open>self.block_size\<close>: the constructor refuses every factory whose block size is not 16.\<close>

definition block_size :: int where
  "block_size = 16"

section \<open>Big-endian integers and blocks\<close>

text \<open>
  Modelled from the spec: \<^verbatim>\<open>Crypto.Util.number\<close> and \<^verbatim>\<open>Crypto.Util.strxor\<close> are not among
  the sources. The spec reads a byte string as a big-endian integer (section 4.4, step 7);
  \<^verbatim>\<open>long_to_bytes(n, blocksize)\<close> is the shortest big-endian string of \<open>n\<close> (one zero byte
  for 0), padded in front with zero bytes to a multiple of \<open>blocksize\<close>.
\<close>

definition bytes_to_long :: "bytes \<Rightarrow> int" where
  "bytes_to_long bs = foldl (\<lambda>n b. n * 256 + uint b) 0 bs"

function be_bytes :: "int \<Rightarrow> bytes" where
  "be_bytes n = (if n \<le> 0 then [] else be_bytes (n div 256) @ [word_of_int (n mod 256)])"
  by pat_completeness auto
termination
  by (relation "measure nat") auto

declare be_bytes.simps [simp del]

definition long_to_bytes :: "int \<Rightarrow> nat \<Rightarrow> bytes" where
  "long_to_bytes n blocksize =
     (let s = (if be_bytes n = [] then [0] else be_bytes n)
      in if 0 < blocksize \<and> length s mod blocksize \<noteq> 0
         then replicate (blocksize - length s mod blocksize) 0 @ s
         else s)"

definition strxor :: "bytes \<Rightarrow> bytes \<Rightarrow> bytes" where
  "strxor a b = map2 (XOR) a b"

text \<open>
  A 16-byte block as a 128-bit word, big-endian (section 4.1 of the spec), and back.
\<close>

definition block_of_bytes :: "bytes \<Rightarrow> block" where
  "block_of_bytes bs = word_of_int (bytes_to_long bs)"

definition bytes_of_block :: "block \<Rightarrow> bytes" where
  "bytes_of_block w = map (\<lambda>i. ucast (drop_bit (8 * (15 - i)) w)) [0..<16]"

section \<open>Errors, methods and the collaborators of the mode\<close>

text \<open>
  The exceptions of the module, named after the error kinds of the specification:
  \<^item> \<open>UnsupportedBlockSize\<close>, \<open>InvalidNonceLength\<close>, \<open>InvalidTagLength\<close>: the three
    \<^verbatim>\<open>ValueError\<close>s of \<^verbatim>\<open>__init__\<close>;
  \<^item> \<open>InvalidSequence\<close>: the \<^verbatim>\<open>TypeError\<close> raised when a method is not in \<^verbatim>\<open>self._next\<close>;
  \<^item> \<open>PendingData\<close>: the \<^verbatim>\<open>TypeError\<close> "There is outstanding data";
  \<^item> \<open>MacMismatch\<close>: the \<^verbatim>\<open>ValueError\<close> "MAC check failed";
  \<^item> \<open>BlockCipherError n\<close>: the \<^verbatim>\<open>ValueError\<close> "Error n while ..." raised when a function
    of the raw library returns the non-zero code \<open>n\<close>.
\<close>

datatype error =
    UnsupportedBlockSize
  | InvalidNonceLength
  | InvalidTagLength
  | InvalidSequence
  | PendingData
  | MacMismatch
  | BlockCipherError int

text \<open>The bound methods that \<^verbatim>\<open>self._next\<close> holds.\<close>

datatype bound_method = Update | Encrypt | Decrypt | Digest | Verify

text \<open>
  The code outside the module, taken as parameters: the cipher factory (with its key), the
  functions of \<^verbatim>\<open>raw_ocb_lib\<close> over a raw state \<open>'r\<close>, and the keyed hash of \<^verbatim>\<open>verify\<close>.
  A raw function returns its result code, the bytes it stored from the start of the
  output buffer (if it has one) and the raw state it leaves.
\<close>

record 'r ext =
  factory_block_size :: int
  ecb_encrypt_block :: "block \<Rightarrow> block"
  OCB_start_operation :: "bytes \<Rightarrow> nat \<Rightarrow> int \<times> 'r"
  OCB_encrypt :: "'r \<Rightarrow> bytes \<Rightarrow> nat \<Rightarrow> int \<times> bytes \<times> 'r"
  OCB_decrypt :: "'r \<Rightarrow> bytes \<Rightarrow> nat \<Rightarrow> int \<times> bytes \<times> 'r"
  OCB_update :: "'r \<Rightarrow> bytes \<Rightarrow> nat \<Rightarrow> int \<times> 'r"
  OCB_digest :: "'r \<Rightarrow> nat \<Rightarrow> int \<times> bytes \<times> 'r"
  BLAKE2s_mac :: "bytes \<Rightarrow> bytes \<Rightarrow> bytes"

text \<open>
  The buffer helpers of \<^verbatim>\<open>Crypto.Util._raw_api\<close>, which is not among the sources, as the
  module uses them: \<^verbatim>\<open>create_string_buffer(n)\<close> allocates \<open>n\<close> zero bytes, the raw function
  stores into them, and \<^verbatim>\<open>get_raw_buffer\<close> reads the \<open>n\<close> bytes back. Whatever the raw
  function stored, the buffer keeps its size.
\<close>

definition get_raw_buffer :: "nat \<Rightarrow> bytes \<Rightarrow> bytes" where
  "get_raw_buffer n stored = take n stored @ replicate (n - length stored) 0"

section \<open>The session object\<close>

record 'r OcbMode =
  mac_len :: int
  mac_tag :: "bytes option"
  cache_A :: bytes
  cache_P :: bytes
  next' :: "bound_method list"
  state :: 'r

text \<open>The fields as \<^verbatim>\<open>__init__\<close> leaves them, for the tag length and the raw state given.\<close>

definition new_session :: "int \<Rightarrow> 'r \<Rightarrow> 'r OcbMode" where
  "new_session t r =
     \<lparr>mac_len = t, mac_tag = None, cache_A = [], cache_P = [],
      next' = [Update, Encrypt, Decrypt, Digest, Verify], state = r\<rparr>"

subsection \<open>\<^verbatim>\<open>_update\<close> and \<^verbatim>\<open>update\<close>\<close>

definition update_internal ::
  "'r ext \<Rightarrow> 'r OcbMode \<Rightarrow> bytes \<Rightarrow> nat \<Rightarrow> (error + unit) \<times> 'r OcbMode" where
  "update_internal lib s assoc_data assoc_data_len =
     (case OCB_update lib (state s) assoc_data assoc_data_len of
        (result, r) \<Rightarrow>
          if result \<noteq> 0 then (Inl (BlockCipherError result), s\<lparr>state := r\<rparr>)
          else (Inr (), s\<lparr>state := r\<rparr>))"

text \<open>Lines 248 to 251 of \<^verbatim>\<open>update\<close>: the aligned part goes to the raw library, the rest is cached.\<close>

definition update_aligned ::
  "'r ext \<Rightarrow> 'r OcbMode \<Rightarrow> bytes \<Rightarrow> (error + unit) \<times> 'r OcbMode" where
  "update_aligned lib s assoc_data =
     (let update_len = int (length assoc_data) div block_size * block_size
      in update_internal lib (s\<lparr>cache_A := slice_from assoc_data update_len\<rparr>)
           assoc_data (nat update_len))"

function update :: "'r ext \<Rightarrow> 'r OcbMode \<Rightarrow> bytes \<Rightarrow> (error + unit) \<times> 'r OcbMode" where
  "update lib s assoc_data =
     (if Update \<notin> set (next' s) then (Inl InvalidSequence, s)
      else if 0 < length (cache_A s) then
        (let filler = min (block_size - int (length (cache_A s))) (int (length assoc_data));
             s2 = s\<lparr>next' := [Encrypt, Decrypt, Digest, Verify, Update],
                    cache_A := cache_A s @ slice_to assoc_data filler\<rparr>
         in if int (length (cache_A s2)) < block_size then (Inr (), s2)
            else
              (case update lib (s2\<lparr>cache_A := []\<rparr>) (cache_A s2) of
                 (Inl e, s4) \<Rightarrow> (Inl e, s4)
               | (Inr _, s4) \<Rightarrow> update_aligned lib s4 (slice_from assoc_data filler)))
      else update_aligned lib (s\<lparr>next' := [Encrypt, Decrypt, Digest, Verify, Update]\<rparr>)
             assoc_data)"
  by pat_completeness auto
termination
  by (relation "measure (\<lambda>(lib, s, assoc_data). length (cache_A s))") auto

declare update.simps [simp del]

subsection \<open>\<^verbatim>\<open>_transcrypt_aligned\<close> and \<^verbatim>\<open>_transcrypt\<close>\<close>

definition transcrypt_aligned ::
  "'r OcbMode \<Rightarrow> bytes \<Rightarrow> nat \<Rightarrow> ('r \<Rightarrow> bytes \<Rightarrow> nat \<Rightarrow> int \<times> bytes \<times> 'r)
     \<Rightarrow> (error + bytes) \<times> 'r OcbMode" where
  "transcrypt_aligned s in_data in_data_len trans_func =
     (case trans_func (state s) in_data in_data_len of
        (result, stored, r) \<Rightarrow>
          if result \<noteq> 0 then (Inl (BlockCipherError result), s\<lparr>state := r\<rparr>)
          else (Inr (get_raw_buffer in_data_len stored), s\<lparr>state := r\<rparr>))"

text \<open>Lines 296 to 308 of \<^verbatim>\<open>_transcrypt\<close>: whole blocks are processed, the left-over is cached.\<close>

definition transcrypt_blocks ::
  "'r OcbMode \<Rightarrow> bytes \<Rightarrow> bytes \<Rightarrow> ('r \<Rightarrow> bytes \<Rightarrow> nat \<Rightarrow> int \<times> bytes \<times> 'r)
     \<Rightarrow> (error + bytes) \<times> 'r OcbMode" where
  "transcrypt_blocks s prefix in_data trans_func =
     (let trans_len = int (length in_data) div block_size * block_size
      in case transcrypt_aligned s in_data (nat trans_len) trans_func of
           (Inl e, s') \<Rightarrow> (Inl e, s')
         | (Inr result, s') \<Rightarrow>
             (Inr (if prefix \<noteq> [] then prefix @ result else result),
              s'\<lparr>cache_P := slice_from in_data trans_len\<rparr>))"

definition transcrypt ::
  "'r OcbMode \<Rightarrow> bytes option \<Rightarrow> ('r \<Rightarrow> bytes \<Rightarrow> nat \<Rightarrow> int \<times> bytes \<times> 'r)
     \<Rightarrow> (error + bytes) \<times> 'r OcbMode" where
  "transcrypt s in_data_opt trans_func =
     (case in_data_opt of
        None \<Rightarrow>
          (case transcrypt_aligned s (cache_P s) (length (cache_P s)) trans_func of
             (Inl e, s') \<Rightarrow> (Inl e, s')
           | (Inr out_data, s') \<Rightarrow> (Inr out_data, s'\<lparr>cache_P := []\<rparr>))
      | Some in_data \<Rightarrow>
          if 0 < length (cache_P s) then
            (let filler = min (block_size - int (length (cache_P s))) (int (length in_data));
                 s1 = s\<lparr>cache_P := cache_P s @ slice_to in_data filler\<rparr>
             in if int (length (cache_P s1)) < block_size then (Inr [], s1)
                else
                  (case transcrypt_aligned s1 (cache_P s1) (length (cache_P s1)) trans_func of
                     (Inl e, s2) \<Rightarrow> (Inl e, s2)
                   | (Inr prefix, s2) \<Rightarrow>
                       transcrypt_blocks (s2\<lparr>cache_P := []\<rparr>) prefix
                         (slice_from in_data filler) trans_func))
          else transcrypt_blocks s [] in_data trans_func)"

subsection \<open>\<^verbatim>\<open>encrypt\<close> and \<^verbatim>\<open>decrypt\<close>\<close>

definition encrypt :: "'r ext \<Rightarrow> 'r OcbMode \<Rightarrow> bytes option \<Rightarrow> (error + bytes) \<times> 'r OcbMode" where
  "encrypt lib s plaintext =
     (if Encrypt \<notin> set (next' s) then (Inl InvalidSequence, s)
      else transcrypt
             (s\<lparr>next' := (case plaintext of None \<Rightarrow> [Digest] | Some _ \<Rightarrow> [Encrypt, Digest])\<rparr>)
             plaintext (OCB_encrypt lib))"

definition decrypt :: "'r ext \<Rightarrow> 'r OcbMode \<Rightarrow> bytes option \<Rightarrow> (error + bytes) \<times> 'r OcbMode" where
  "decrypt lib s ciphertext =
     (if Decrypt \<notin> set (next' s) then (Inl InvalidSequence, s)
      else transcrypt
             (s\<lparr>next' := (case ciphertext of None \<Rightarrow> [Verify] | Some _ \<Rightarrow> [Decrypt, Digest])\<rparr>)
             ciphertext (OCB_decrypt lib))"

subsection \<open>\<^verbatim>\<open>_compute_mac_tag\<close>, \<^verbatim>\<open>digest\<close> and \<^verbatim>\<open>verify\<close>\<close>

definition compute_mac_tag :: "'r ext \<Rightarrow> 'r OcbMode \<Rightarrow> (error + unit) \<times> 'r OcbMode" where
  "compute_mac_tag lib s =
     (if mac_tag s \<noteq> None then (Inr (), s)
      else
        (case (if cache_A s \<noteq> [] then
                 (case update_internal lib s (cache_A s) (length (cache_A s)) of
                    (Inl e, s') \<Rightarrow> (Inl e, s')
                  | (Inr _, s') \<Rightarrow> (Inr (), s'\<lparr>cache_A := []\<rparr>))
               else (Inr (), s)) of
           (Inl e, s1) \<Rightarrow> (Inl e, s1)
         | (Inr _, s1) \<Rightarrow>
             (case OCB_digest lib (state s1) (nat block_size) of
                (result, stored, r) \<Rightarrow>
                  if result \<noteq> 0 then (Inl (BlockCipherError result), s1\<lparr>state := r\<rparr>)
                  else
                    (Inr (),
                     s1\<lparr>state := r,
                        mac_tag :=
                          Some (slice_to (get_raw_buffer (nat block_size) stored) (mac_len s1))\<rparr>))))"

text \<open>\<^verbatim>\<open>digest\<close> returns \<^verbatim>\<open>self._mac_tag\<close>, which Python allows to be \<^verbatim>\<open>None\<close>.\<close>

definition digest :: "'r ext \<Rightarrow> 'r OcbMode \<Rightarrow> (error + bytes option) \<times> 'r OcbMode" where
  "digest lib s =
     (if Digest \<notin> set (next' s) then (Inl InvalidSequence, s)
      else if 0 < length (cache_P s) then (Inl PendingData, s)
      else
        (case (if mac_tag s = None then compute_mac_tag lib (s\<lparr>next' := [Digest]\<rparr>)
               else (Inr (), s\<lparr>next' := [Digest]\<rparr>)) of
           (Inl e, s2) \<Rightarrow> (Inl e, s2)
         | (Inr _, s2) \<Rightarrow> (Inr (mac_tag s2), s2)))"

text \<open>
  \<^verbatim>\<open>verify\<close> draws 16 random bytes, here the argument \<open>secret\<close>, and compares the two
  keyed hashes. A tag of \<^verbatim>\<open>None\<close> hashes as no data.
\<close>

definition verify ::
  "'r ext \<Rightarrow> bytes \<Rightarrow> 'r OcbMode \<Rightarrow> bytes \<Rightarrow> (error + unit) \<times> 'r OcbMode" where
  "verify lib secret s received_mac_tag =
     (if Verify \<notin> set (next' s) then (Inl InvalidSequence, s)
      else if 0 < length (cache_P s) then (Inl PendingData, s)
      else
        (case (if mac_tag s = None then compute_mac_tag lib (s\<lparr>next' := [Verify]\<rparr>)
               else (Inr (), s\<lparr>next' := [Verify]\<rparr>)) of
           (Inl e, s2) \<Rightarrow> (Inl e, s2)
         | (Inr _, s2) \<Rightarrow>
             if BLAKE2s_mac lib secret (case mac_tag s2 of None \<Rightarrow> [] | Some t \<Rightarrow> t)
                  \<noteq> BLAKE2s_mac lib secret received_mac_tag
             then (Inl MacMismatch, s2)
             else (Inr (), s2)))"

subsection \<open>\<^verbatim>\<open>encrypt_and_digest\<close> and \<^verbatim>\<open>decrypt_and_verify\<close>\<close>

definition encrypt_and_digest ::
  "'r ext \<Rightarrow> 'r OcbMode \<Rightarrow> bytes \<Rightarrow> (error + bytes \<times> bytes option) \<times> 'r OcbMode" where
  "encrypt_and_digest lib s plaintext =
     (case encrypt lib s (Some plaintext) of
        (Inl e, s1) \<Rightarrow> (Inl e, s1)
      | (Inr c1, s1) \<Rightarrow>
          (case encrypt lib s1 None of
             (Inl e, s2) \<Rightarrow> (Inl e, s2)
           | (Inr c2, s2) \<Rightarrow>
               (case digest lib s2 of
                  (Inl e, s3) \<Rightarrow> (Inl e, s3)
                | (Inr t, s3) \<Rightarrow> (Inr (c1 @ c2, t), s3))))"

definition decrypt_and_verify ::
  "'r ext \<Rightarrow> bytes \<Rightarrow> 'r OcbMode \<Rightarrow> bytes \<Rightarrow> bytes \<Rightarrow> (error + bytes) \<times> 'r OcbMode" where
  "decrypt_and_verify lib secret s ciphertext received_mac_tag =
     (case decrypt lib s (Some ciphertext) of
        (Inl e, s1) \<Rightarrow> (Inl e, s1)
      | (Inr p1, s1) \<Rightarrow>
          (case decrypt lib s1 None of
             (Inl e, s2) \<Rightarrow> (Inl e, s2)
           | (Inr p2, s2) \<Rightarrow>
               (case verify lib secret s2 received_mac_tag of
                  (Inl e, s3) \<Rightarrow> (Inl e, s3)
                | (Inr _, s3) \<Rightarrow> (Inr (p1 @ p2), s3))))"

subsection \<open>\<^verbatim>\<open>__init__\<close>\<close>

definition bchr :: "int \<Rightarrow> bytes" where
  "bchr c = [word_of_int c]"

definition bord :: "byte \<Rightarrow> int" where
  "bord c = uint c"

text \<open>Lines 168 to 170: the block built from the tag length and the caller's nonce.\<close>

definition nonce_block :: "int \<Rightarrow> bytes \<Rightarrow> bytes" where
  "nonce_block t nonce =
     bchr (push_bit 4 t AND 255) @ replicate (nat (14 - int (length nonce))) 0 @ bchr 1 @ nonce"

text \<open>Line 173: \<^verbatim>\<open>ktop + strxor(ktop[:8], ktop[1:9])\<close>.\<close>

definition stretch_of :: "bytes \<Rightarrow> bytes" where
  "stretch_of ktop = ktop @ strxor (take 8 ktop) (take 8 (drop 1 ktop))"

text \<open>Lines 174 and 175: \<^verbatim>\<open>long_to_bytes(bytes_to_long(stretch) >> (64 - bottom), 24)[8:]\<close>.\<close>

definition offset_0_of :: "bytes \<Rightarrow> int \<Rightarrow> bytes" where
  "offset_0_of stretch bottom =
     drop 8 (long_to_bytes (drop_bit (nat (64 - bottom)) (bytes_to_long stretch)) 24)"

definition compute_offset_0 :: "(block \<Rightarrow> block) \<Rightarrow> int \<Rightarrow> bytes \<Rightarrow> bytes" where
  "compute_offset_0 E t nonce0 =
     (let nonce = nonce_block t nonce0;
          bottom = bord (nonce ! 15) AND 63;
          ktop = bytes_of_block
                   (E (block_of_bytes (take 15 nonce @ bchr (bord (nonce ! 15) AND 192))))
      in offset_0_of (stretch_of ktop) bottom)"

definition OcbMode_init :: "'r ext \<Rightarrow> bytes \<Rightarrow> int \<Rightarrow> error + 'r OcbMode" where
  "OcbMode_init lib nonce t =
     (if factory_block_size lib \<noteq> 16 then Inl UnsupportedBlockSize
      else if length nonce \<notin> set [1..<16] then Inl InvalidNonceLength
      else if \<not> (8 \<le> t \<and> t \<le> 16) then Inl InvalidTagLength
      else
        (let offset_0 = compute_offset_0 (ecb_encrypt_block lib) t nonce
         in case OCB_start_operation lib offset_0 (length offset_0) of
              (result, r) \<Rightarrow>
                if result \<noteq> 0 then Inl (BlockCipherError result)
                else Inr (new_session t r)))"

section \<open>The raw OCB3 engine\<close>

text \<open>
  Modelled from the spec: the C library behind \<^verbatim>\<open>raw_ocb_lib\<close> is not among the sources.
  Sections 4.1 to 4.8 of the spec give its algorithm over a block cipher \<open>E\<close> and its
  inverse \<open>D\<close>; a 16-byte block is a 128-bit word.
\<close>

text \<open>Section 4.1: doubling in GF(2^128).\<close>

definition double :: "block \<Rightarrow> block" where
  "double X = (if bit X 127 then push_bit 1 X XOR 135 else push_bit 1 X)"

text \<open>Section 4.2: \<open>L_star\<close>, \<open>L_dollar\<close> and \<open>L(i)\<close>.\<close>

definition L_star :: "(block \<Rightarrow> block) \<Rightarrow> block" where
  "L_star E = E 0"

definition L_dollar :: "(block \<Rightarrow> block) \<Rightarrow> block" where
  "L_dollar E = double (L_star E)"

fun L :: "(block \<Rightarrow> block) \<Rightarrow> nat \<Rightarrow> block" where
  "L E 0 = double (L_dollar E)"
| "L E (Suc i) = double (L E i)"

text \<open>Section 4.3: the number of trailing zero bits of \<open>i \<ge> 1\<close>.\<close>

function ntz :: "nat \<Rightarrow> nat" where
  "ntz i = (if i = 0 \<or> odd i then 0 else Suc (ntz (i div 2)))"
  by pat_completeness auto
termination
  by (relation "measure id") auto

declare ntz.simps [simp del]

record ocb_state =
  offset_ad :: block
  sum_ad :: block
  block_idx_ad :: nat
  offset_msg :: block
  checksum_msg :: block
  block_idx_msg :: nat

text \<open>A partial block followed by the byte 0x80 and zero bytes, up to 16 bytes.\<close>

definition pad_block :: "bytes \<Rightarrow> bytes" where
  "pad_block bs = bs @ [128] @ replicate (15 - length bs) 0"

text \<open>Section 4.5: one full block of associated data, and the final partial block.\<close>

definition ad_block :: "(block \<Rightarrow> block) \<Rightarrow> ocb_state \<Rightarrow> bytes \<Rightarrow> ocb_state" where
  "ad_block E st A_i =
     (let i = block_idx_ad st + 1;
          off = offset_ad st XOR L E (ntz i)
      in st\<lparr>block_idx_ad := i, offset_ad := off,
            sum_ad := sum_ad st XOR E (block_of_bytes A_i XOR off)\<rparr>)"

definition ad_final :: "(block \<Rightarrow> block) \<Rightarrow> ocb_state \<Rightarrow> bytes \<Rightarrow> ocb_state" where
  "ad_final E st pending =
     (let off = offset_ad st XOR L_star E
      in st\<lparr>offset_ad := off,
            sum_ad := sum_ad st XOR E (block_of_bytes (pad_block pending) XOR off)\<rparr>)"

function ocb_update :: "(block \<Rightarrow> block) \<Rightarrow> ocb_state \<Rightarrow> bytes \<Rightarrow> ocb_state" where
  "ocb_update E st data =
     (if 16 \<le> length data then ocb_update E (ad_block E st (take 16 data)) (drop 16 data)
      else if data \<noteq> [] then ad_final E st data
      else st)"
  by pat_completeness auto
termination
  by (relation "measure (\<lambda>(E, st, data). length data)") auto

declare ocb_update.simps [simp del]

text \<open>Section 4.6: one full message block in each direction, and the final partial block.\<close>

definition enc_block :: "(block \<Rightarrow> block) \<Rightarrow> ocb_state \<Rightarrow> bytes \<Rightarrow> bytes \<times> ocb_state" where
  "enc_block E st P_i =
     (let i = block_idx_msg st + 1;
          off = offset_msg st XOR L E (ntz i);
          C_i = off XOR E (block_of_bytes P_i XOR off)
      in (bytes_of_block C_i,
          st\<lparr>block_idx_msg := i, offset_msg := off,
             checksum_msg := checksum_msg st XOR block_of_bytes P_i\<rparr>))"

definition dec_block ::
  "(block \<Rightarrow> block) \<Rightarrow> (block \<Rightarrow> block) \<Rightarrow> ocb_state \<Rightarrow> bytes \<Rightarrow> bytes \<times> ocb_state" where
  "dec_block E D st C_i =
     (let i = block_idx_msg st + 1;
          off = offset_msg st XOR L E (ntz i);
          P_i = off XOR D (block_of_bytes C_i XOR off)
      in (bytes_of_block P_i,
          st\<lparr>block_idx_msg := i, offset_msg := off,
             checksum_msg := checksum_msg st XOR P_i\<rparr>))"

definition enc_final :: "(block \<Rightarrow> block) \<Rightarrow> ocb_state \<Rightarrow> bytes \<Rightarrow> bytes \<times> ocb_state" where
  "enc_final E st P =
     (let off = offset_msg st XOR L_star E;
          Pad = E off;
          C = map2 (XOR) P (take (length P) (bytes_of_block Pad))
      in (C, st\<lparr>offset_msg := off,
                checksum_msg := checksum_msg st XOR block_of_bytes (pad_block P)\<rparr>))"

definition dec_final :: "(block \<Rightarrow> block) \<Rightarrow> ocb_state \<Rightarrow> bytes \<Rightarrow> bytes \<times> ocb_state" where
  "dec_final E st C =
     (let off = offset_msg st XOR L_star E;
          Pad = E off;
          P = map2 (XOR) C (take (length C) (bytes_of_block Pad))
      in (P, st\<lparr>offset_msg := off,
                checksum_msg := checksum_msg st XOR block_of_bytes (pad_block P)\<rparr>))"

function ocb_encrypt :: "(block \<Rightarrow> block) \<Rightarrow> ocb_state \<Rightarrow> bytes \<Rightarrow> bytes \<times> ocb_state" where
  "ocb_encrypt E st data =
     (if 16 \<le> length data then
        (case enc_block E st (take 16 data) of
           (c, st1) \<Rightarrow>
             (case ocb_encrypt E st1 (drop 16 data) of (cs, st2) \<Rightarrow> (c @ cs, st2)))
      else if data \<noteq> [] then enc_final E st data
      else ([], st))"
  by pat_completeness auto
termination
  by (relation "measure (\<lambda>(E, st, data). length data)") auto

declare ocb_encrypt.simps [simp del]

function ocb_decrypt ::
  "(block \<Rightarrow> block) \<Rightarrow> (block \<Rightarrow> block) \<Rightarrow> ocb_state \<Rightarrow> bytes \<Rightarrow> bytes \<times> ocb_state" where
  "ocb_decrypt E D st data =
     (if 16 \<le> length data then
        (case dec_block E D st (take 16 data) of
           (p, st1) \<Rightarrow>
             (case ocb_decrypt E D st1 (drop 16 data) of (ps, st2) \<Rightarrow> (p @ ps, st2)))
      else if data \<noteq> [] then dec_final E st data
      else ([], st))"
  by pat_completeness auto
termination
  by (relation "measure (\<lambda>(E, D, st, data). length data)") auto

declare ocb_decrypt.simps [simp del]

text \<open>Section 4.8, step 2: \<open>Final = E(checksum XOR offset XOR L_dollar) XOR sum\<close>.\<close>

definition ocb_final :: "(block \<Rightarrow> block) \<Rightarrow> ocb_state \<Rightarrow> block" where
  "ocb_final E st = E (checksum_msg st XOR offset_msg st XOR L_dollar E) XOR sum_ad st"

text \<open>Section 3: a fresh state has zero accumulators and the message offset \<open>Offset_0\<close>.\<close>

definition ocb_start :: "bytes \<Rightarrow> ocb_state" where
  "ocb_start offset_0 =
     \<lparr>offset_ad = 0, sum_ad = 0, block_idx_ad = 0,
      offset_msg = block_of_bytes offset_0, checksum_msg = 0, block_idx_msg = 0\<rparr>"

text \<open>
  The collaborators with this engine as the raw library: a raw function reads the first
  \<open>n\<close> bytes of its input and reports success.
\<close>

definition ocb_lib ::
  "(block \<Rightarrow> block) \<Rightarrow> (block \<Rightarrow> block) \<Rightarrow> (bytes \<Rightarrow> bytes \<Rightarrow> bytes) \<Rightarrow> ocb_state ext" where
  "ocb_lib E D h =
     \<lparr>factory_block_size = 16,
      ecb_encrypt_block = E,
      OCB_start_operation = (\<lambda>offset_0 n. (0, ocb_start (take n offset_0))),
      OCB_encrypt = (\<lambda>st data n. (0, ocb_encrypt E st (take n data))),
      OCB_decrypt = (\<lambda>st data n. (0, ocb_decrypt E D st (take n data))),
      OCB_update = (\<lambda>st data n. (0, ocb_update E st (take n data))),
      OCB_digest = (\<lambda>st n. (0, take n (bytes_of_block (ocb_final E st)), st)),
      BLAKE2s_mac = h\<rparr>"

text \<open>
  The engine applied in the order a session applies it: the whole blocks of the associated
  data, the message, then the rest of the associated data. The result is the ciphertext
  and the state that the tag is computed from.
\<close>

definition ocb_seal :: "(block \<Rightarrow> block) \<Rightarrow> ocb_state \<Rightarrow> bytes \<Rightarrow> bytes \<Rightarrow> bytes \<times> ocb_state" where
  "ocb_seal E r A P =
     (let K = length A div 16 * 16;
          r1 = ocb_update E r (take K A);
          r2 = snd (ocb_encrypt E r1 P);
          r3 = ocb_update E r2 (drop K A)
      in (fst (ocb_encrypt E r1 P), r3))"

text \<open>
  A concrete instance for the worked examples: the block cipher adds a constant modulo
  2^128, its inverse subtracts it, and the keyed hash returns the key followed by the data.
\<close>

definition example_E :: "block \<Rightarrow> block" where
  "example_E x = x + 0x0123456789ABCDEFFEDCBA9876543210"

definition example_D :: "block \<Rightarrow> block" where
  "example_D x = x - 0x0123456789ABCDEFFEDCBA9876543210"

definition example_lib :: "ocb_state ext" where
  "example_lib = ocb_lib example_E example_D (\<lambda>key data. key @ data)"

section \<open>Call sequences\<close>

text \<open>
  A call of one of the five public methods. \<open>perform\<close> gives the exception the call raises,
  if any, and the session it leaves: a caller that catches the exception goes on with that
  session.
\<close>

datatype call =
    CallUpdate bytes
  | CallEncrypt "bytes option"
  | CallDecrypt "bytes option"
  | CallDigest
  | CallVerify bytes bytes

definition raised_of :: "(error + 'a) \<times> 's \<Rightarrow> error option \<times> 's" where
  "raised_of r = (case r of (Inl e, s') \<Rightarrow> (Some e, s') | (Inr _, s') \<Rightarrow> (None, s'))"

fun perform :: "'r ext \<Rightarrow> 'r OcbMode \<Rightarrow> call \<Rightarrow> error option \<times> 'r OcbMode" where
  "perform lib s (CallUpdate assoc_data) = raised_of (update lib s assoc_data)"
| "perform lib s (CallEncrypt plaintext) = raised_of (encrypt lib s plaintext)"
| "perform lib s (CallDecrypt ciphertext) = raised_of (decrypt lib s ciphertext)"
| "perform lib s CallDigest = raised_of (digest lib s)"
| "perform lib s (CallVerify secret received_mac_tag) =
     raised_of (verify lib secret s received_mac_tag)"

definition session_after :: "'r ext \<Rightarrow> 'r OcbMode \<Rightarrow> call \<Rightarrow> 'r OcbMode" where
  "session_after lib s c = snd (perform lib s c)"

definition run_calls :: "'r ext \<Rightarrow> 'r OcbMode \<Rightarrow> call list \<Rightarrow> 'r OcbMode" where
  "run_calls lib s cs = foldl (session_after lib) s cs"

text \<open>
  The message fed in pieces: \<^verbatim>\<open>encrypt(p)\<close> for each piece, then \<^verbatim>\<open>encrypt(None)\<close>, with the
  byte strings the calls return, in order. The same for \<^verbatim>\<open>decrypt\<close> and for \<^verbatim>\<open>update\<close>.
\<close>

fun encrypt_chunks ::
  "'r ext \<Rightarrow> 'r OcbMode \<Rightarrow> bytes list \<Rightarrow> (error + bytes list) \<times> 'r OcbMode" where
  "encrypt_chunks lib s [] =
     (case encrypt lib s None of
        (Inl e, s') \<Rightarrow> (Inl e, s')
      | (Inr c, s') \<Rightarrow> (Inr [c], s'))"
| "encrypt_chunks lib s (p # ps) =
     (case encrypt lib s (Some p) of
        (Inl e, s') \<Rightarrow> (Inl e, s')
      | (Inr c, s') \<Rightarrow>
          (case encrypt_chunks lib s' ps of
             (Inl e, s'') \<Rightarrow> (Inl e, s'')
           | (Inr cs, s'') \<Rightarrow> (Inr (c # cs), s'')))"

fun decrypt_chunks ::
  "'r ext \<Rightarrow> 'r OcbMode \<Rightarrow> bytes list \<Rightarrow> (error + bytes list) \<times> 'r OcbMode" where
  "decrypt_chunks lib s [] =
     (case decrypt lib s None of
        (Inl e, s') \<Rightarrow> (Inl e, s')
      | (Inr p, s') \<Rightarrow> (Inr [p], s'))"
| "decrypt_chunks lib s (c # cs) =
     (case decrypt lib s (Some c) of
        (Inl e, s') \<Rightarrow> (Inl e, s')
      | (Inr p, s') \<Rightarrow>
          (case decrypt_chunks lib s' cs of
             (Inl e, s'') \<Rightarrow> (Inl e, s'')
           | (Inr ps, s'') \<Rightarrow> (Inr (p # ps), s'')))"

fun update_chunks ::
  "'r ext \<Rightarrow> 'r OcbMode \<Rightarrow> bytes list \<Rightarrow> (error + unit) \<times> 'r OcbMode" where
  "update_chunks lib s [] = (Inr (), s)"
| "update_chunks lib s (a # as) =
     (case update lib s a of
        (Inl e, s') \<Rightarrow> (Inl e, s')
      | (Inr _, s') \<Rightarrow> update_chunks lib s' as)"

text \<open>
  A streamed session: the pieces of the associated data, the pieces of the plaintext with
  the closing \<^verbatim>\<open>encrypt(None)\<close>, then \<^verbatim>\<open>digest()\<close>. The result is the ciphertext bytes
  concatenated, and the tag.
\<close>

definition streamed ::
  "'r ext \<Rightarrow> 'r OcbMode \<Rightarrow> bytes list \<Rightarrow> bytes list
     \<Rightarrow> (error + bytes \<times> bytes option) \<times> 'r OcbMode" where
  "streamed lib s as ps =
     (case update_chunks lib s as of
        (Inl e, s1) \<Rightarrow> (Inl e, s1)
      | (Inr _, s1) \<Rightarrow>
          (case encrypt_chunks lib s1 ps of
             (Inl e, s2) \<Rightarrow> (Inl e, s2)
           | (Inr cs, s2) \<Rightarrow>
               (case digest lib s2 of
                  (Inl e, s3) \<Rightarrow> (Inl e, s3)
                | (Inr t, s3) \<Rightarrow> (Inr (concat cs, t), s3))))"

text \<open>The one-shot session: a single \<^verbatim>\<open>update(A)\<close>, then \<^verbatim>\<open>encrypt_and_digest(P)\<close>.\<close>

definition one_shot ::
  "'r ext \<Rightarrow> 'r OcbMode \<Rightarrow> bytes \<Rightarrow> bytes
     \<Rightarrow> (error + bytes \<times> bytes option) \<times> 'r OcbMode" where
  "one_shot lib s A P =
     (case update lib s A of
        (Inl e, s1) \<Rightarrow> (Inl e, s1)
      | (Inr _, s1) \<Rightarrow> encrypt_and_digest lib s1 P)"

text \<open>The receiving side: a single \<^verbatim>\<open>update(A)\<close>, then \<^verbatim>\<open>decrypt_and_verify(C, tag)\<close>.\<close>

definition one_shot_open ::
  "'r ext \<Rightarrow> bytes \<Rightarrow> 'r OcbMode \<Rightarrow> bytes \<Rightarrow> bytes \<Rightarrow> bytes
     \<Rightarrow> (error + bytes) \<times> 'r OcbMode" where
  "one_shot_open lib secret s A C tag =
     (case update lib s A of
        (Inl e, s1) \<Rightarrow> (Inl e, s1)
      | (Inr _, s1) \<Rightarrow> decrypt_and_verify lib secret s1 C tag)"

section \<open>Invariants of a session\<close>

text \<open>
  The associated-data cache stays below one block. The message cache holds a full block
  only after a failed raw call, and it is empty as long as \<^verbatim>\<open>update\<close> is still permitted.
\<close>

definition caches_ok :: "'r OcbMode \<Rightarrow> bool" where
  "caches_ok s \<longleftrightarrow>
     length (cache_A s) < 16 \<and> length (cache_P s) \<le> 16 \<and>
     (Update \<in> set (next' s) \<longrightarrow> cache_P s = [])"

text \<open>A cached tag has the length \<^verbatim>\<open>mac_len\<close>.\<close>

definition tag_ok :: "'r OcbMode \<Rightarrow> bool" where
  "tag_ok s \<longleftrightarrow> (\<forall>b. mac_tag s = Some b \<longrightarrow> int (length b) = mac_len s)"

text \<open>The session that \<^verbatim>\<open>__init__\<close> builds from the example instance, nonce 01 02 03, tag length 16.\<close>

definition example_session :: "ocb_state OcbMode" where
  "example_session = new_session 16 (ocb_start (compute_offset_0 example_E 16 [1, 2, 3]))"

section \<open>The initial offset as the specification words it\<close>

text \<open>
  Section 4.4, step 7, in the RFC's numbering: bit \<open>i\<close> of a byte string counts from 1 at
  the most significant bit of the first byte, and \<open>Offset_0\<close> is made of the bits
  \<open>1 + bottom\<close> to \<open>128 + bottom\<close> of \<open>Stretch\<close>, eight to a byte, most significant first.
\<close>

definition stretch_bit :: "bytes \<Rightarrow> nat \<Rightarrow> bool" where
  "stretch_bit bs i = bit (bs ! ((i - 1) div 8)) (7 - (i - 1) mod 8)"

definition byte_of_bits :: "bool list \<Rightarrow> byte" where
  "byte_of_bits bits = foldl (\<lambda>w b. push_bit 1 w OR of_bool b) 0 bits"

definition Offset_0_spec :: "bytes \<Rightarrow> nat \<Rightarrow> bytes" where
  "Offset_0_spec stretch bottom =
     map (\<lambda>j. byte_of_bits
                 (map (stretch_bit stretch) [1 + bottom + 8 * j ..< 1 + bottom + 8 * j + 8]))
       [0..<16]"

section \<open>Sequence enforcement\<close>


lemma slice_from_len [simp]: "length (slice_from d (int (length d) div block_size * block_size)) < 16"
  by (simp add: slice_from_def block_size_def)

lemma length_get_raw_buffer [simp]: "length (get_raw_buffer n stored) = n"
  by (simp add: get_raw_buffer_def)

lemma transcrypt_aligned_eq:
  "transcrypt_aligned s d n f = (x, s') \<Longrightarrow>
     cache_P s' = cache_P s \<and> cache_A s' = cache_A s \<and> next' s' = next' s \<and>
     mac_tag s' = mac_tag s \<and> mac_len s' = mac_len s \<and>
     (case x of Inl e \<Rightarrow> \<exists>k. e = BlockCipherError k | Inr out \<Rightarrow> length out = n)"
  by (auto simp add: transcrypt_aligned_def get_raw_buffer_def split: prod.splits if_splits)

lemma transcrypt_blocks_eq:
  "transcrypt_blocks s p d f = (x, s') \<Longrightarrow>
     cache_A s' = cache_A s \<and> next' s' = next' s \<and>
     mac_tag s' = mac_tag s \<and> mac_len s' = mac_len s \<and>
     (case x of Inl e \<Rightarrow> (\<exists>k. e = BlockCipherError k) \<and> cache_P s' = cache_P s
      | Inr out \<Rightarrow> length (cache_P s') < 16 \<and> length out + length (cache_P s') = length p + length d)"
  apply (auto simp add: transcrypt_blocks_def Let_def split: prod.splits sum.splits dest!: transcrypt_aligned_eq)
  apply (simp_all add: slice_from_def block_size_def)
  done

lemma transcrypt_eq:
  "transcrypt s x f = (y, s') \<Longrightarrow>
     cache_A s' = cache_A s \<and> next' s' = next' s \<and>
     mac_tag s' = mac_tag s \<and> mac_len s' = mac_len s \<and>
     (case y of
        Inl e \<Rightarrow> (\<exists>k. e = BlockCipherError k) \<and>
                  (length (cache_P s) \<le> 16 \<longrightarrow> length (cache_P s') \<le> 16)
      | Inr out \<Rightarrow>
          (length (cache_P s) \<le> 16 \<longrightarrow>
             length (cache_P s') < 16 \<and>
             length out + length (cache_P s') =
               length (cache_P s) + (case x of None \<Rightarrow> 0 | Some d \<Rightarrow> length d)) \<and>
          (x = None \<longrightarrow> cache_P s' = []))"
  apply (cases x)
   apply (auto simp add: transcrypt_def Let_def split: prod.splits sum.splits if_splits dest!: transcrypt_aligned_eq transcrypt_blocks_eq)
  apply (simp_all add: slice_from_def slice_to_def block_size_def min_def split: if_splits)
  done


lemma update_internal_eq:
  "update_internal lib s d n = (x, s') \<Longrightarrow>
     cache_P s' = cache_P s \<and> cache_A s' = cache_A s \<and> next' s' = next' s \<and>
     mac_tag s' = mac_tag s \<and> mac_len s' = mac_len s \<and>
     (case x of Inl e \<Rightarrow> \<exists>k. e = BlockCipherError k | Inr _ \<Rightarrow> True)"
  by (auto simp add: update_internal_def split: prod.splits if_splits)

lemma update_aligned_eq:
  "update_aligned lib s d = (x, s') \<Longrightarrow>
     cache_P s' = cache_P s \<and> length (cache_A s') < 16 \<and> next' s' = next' s \<and>
     mac_tag s' = mac_tag s \<and> mac_len s' = mac_len s \<and>
     (case x of Inl e \<Rightarrow> \<exists>k. e = BlockCipherError k | Inr _ \<Rightarrow> True)"
  by (auto simp add: update_aligned_def Let_def dest!: update_internal_eq)

lemma update_empty_cache:
  "cache_A s = [] \<Longrightarrow>
   update lib s d =
     (if Update \<notin> set (next' s) then (Inl InvalidSequence, s)
      else update_aligned lib (s\<lparr>next' := [Encrypt, Decrypt, Digest, Verify, Update]\<rparr>) d)"
  by (subst update.simps) simp

lemma update_unfold:
  "update lib s d =
     (if Update \<notin> set (next' s) then (Inl InvalidSequence, s)
      else if 0 < length (cache_A s) then
        (let filler = min (block_size - int (length (cache_A s))) (int (length d));
             s2 = s\<lparr>next' := [Encrypt, Decrypt, Digest, Verify, Update],
                    cache_A := cache_A s @ slice_to d filler\<rparr>
         in if int (length (cache_A s2)) < block_size then (Inr (), s2)
            else
              (case update_aligned lib
                      (s\<lparr>cache_A := [], next' := [Encrypt, Decrypt, Digest, Verify, Update]\<rparr>)
                      (cache_A s2) of
                 (Inl e, s4) \<Rightarrow> (Inl e, s4)
               | (Inr _, s4) \<Rightarrow> update_aligned lib s4 (slice_from d filler)))
      else update_aligned lib (s\<lparr>next' := [Encrypt, Decrypt, Digest, Verify, Update]\<rparr>) d)"
  by (subst update.simps) (auto simp add: update_empty_cache Let_def)

lemma update_eq:
  "update lib s d = (x, s') \<Longrightarrow>
     cache_P s' = cache_P s \<and> mac_tag s' = mac_tag s \<and> mac_len s' = mac_len s \<and>
     (length (cache_A s) < 16 \<longrightarrow> length (cache_A s') < 16) \<and>
     (case x of
        Inl e \<Rightarrow>
          (e = InvalidSequence \<and> s' = s \<and> Update \<notin> set (next' s)) \<or>
          (\<exists>k. e = BlockCipherError k) \<and> Update \<in> set (next' s) \<and>
          next' s' = [Encrypt, Decrypt, Digest, Verify, Update]
      | Inr _ \<Rightarrow>
          Update \<in> set (next' s) \<and> next' s' = [Encrypt, Decrypt, Digest, Verify, Update])"
  apply (subst (asm) update_unfold)
  apply (auto simp add: Let_def split: prod.splits sum.splits if_splits dest!: update_aligned_eq)
  apply (simp_all add: slice_to_def block_size_def min_def split: if_splits)
  done

lemma compute_mac_tag_eq:
  "compute_mac_tag lib s = (x, s') \<Longrightarrow>
     cache_P s' = cache_P s \<and> length (cache_A s') \<le> length (cache_A s) \<and> next' s' = next' s \<and>
     mac_len s' = mac_len s \<and>
     (case x of Inl e \<Rightarrow> (\<exists>k. e = BlockCipherError k) \<and> mac_tag s' = mac_tag s
      | Inr _ \<Rightarrow> (if mac_tag s = None
                  then \<exists>b. length b = 16 \<and> mac_tag s' = Some (slice_to b (mac_len s))
                  else s' = s))"
  apply (auto simp add: compute_mac_tag_def Let_def block_size_def split: prod.splits sum.splits if_splits dest!: update_internal_eq)
    apply (metis length_get_raw_buffer)+
  done

lemma encrypt_eq:
  "encrypt lib s x = (y, s') \<Longrightarrow>
     cache_A s' = cache_A s \<and> mac_tag s' = mac_tag s \<and> mac_len s' = mac_len s \<and>
     (case y of
        Inl e \<Rightarrow>
          (e = InvalidSequence \<and> s' = s \<and> Encrypt \<notin> set (next' s)) \<or>
          (\<exists>k. e = BlockCipherError k) \<and> Encrypt \<in> set (next' s) \<and>
          (length (cache_P s) \<le> 16 \<longrightarrow> length (cache_P s') \<le> 16) \<and>
          next' s' = (case x of None \<Rightarrow> [Digest] | Some _ \<Rightarrow> [Encrypt, Digest])
      | Inr out \<Rightarrow>
          Encrypt \<in> set (next' s) \<and>
          next' s' = (case x of None \<Rightarrow> [Digest] | Some _ \<Rightarrow> [Encrypt, Digest]) \<and>
          (length (cache_P s) \<le> 16 \<longrightarrow>
             length (cache_P s') < 16 \<and>
             length out + length (cache_P s') =
               length (cache_P s) + (case x of None \<Rightarrow> 0 | Some d \<Rightarrow> length d)) \<and>
          (x = None \<longrightarrow> cache_P s' = []))"
  by (auto simp add: encrypt_def split: if_splits sum.splits dest!: transcrypt_eq)

lemma decrypt_eq:
  "decrypt lib s x = (y, s') \<Longrightarrow>
     cache_A s' = cache_A s \<and> mac_tag s' = mac_tag s \<and> mac_len s' = mac_len s \<and>
     (case y of
        Inl e \<Rightarrow>
          (e = InvalidSequence \<and> s' = s \<and> Decrypt \<notin> set (next' s)) \<or>
          (\<exists>k. e = BlockCipherError k) \<and> Decrypt \<in> set (next' s) \<and>
          (length (cache_P s) \<le> 16 \<longrightarrow> length (cache_P s') \<le> 16) \<and>
          next' s' = (case x of None \<Rightarrow> [Verify] | Some _ \<Rightarrow> [Decrypt, Digest])
      | Inr out \<Rightarrow>
          Decrypt \<in> set (next' s) \<and>
          next' s' = (case x of None \<Rightarrow> [Verify] | Some _ \<Rightarrow> [Decrypt, Digest]) \<and>
          (length (cache_P s) \<le> 16 \<longrightarrow>
             length (cache_P s') < 16 \<and>
             length out + length (cache_P s') =
               length (cache_P s) + (case x of None \<Rightarrow> 0 | Some d \<Rightarrow> length d)) \<and>
          (x = None \<longrightarrow> cache_P s' = []))"
  by (auto simp add: decrypt_def split: if_splits sum.splits dest!: transcrypt_eq)

lemma digest_eq:
  "digest lib s = (y, s') \<Longrightarrow>
     cache_P s' = cache_P s \<and> length (cache_A s') \<le> length (cache_A s) \<and> mac_len s' = mac_len s \<and>
     (case y of
        Inl e \<Rightarrow> (e = InvalidSequence \<and> s' = s \<and> Digest \<notin> set (next' s))
                  \<or> (e = PendingData \<and> s' = s \<and> Digest \<in> set (next' s) \<and> cache_P s \<noteq> [])
                  \<or> (\<exists>k. e = BlockCipherError k) \<and> Digest \<in> set (next' s) \<and> cache_P s = []
                     \<and> next' s' = [Digest] \<and> mac_tag s' = mac_tag s
      | Inr t \<Rightarrow> Digest \<in> set (next' s) \<and> cache_P s = [] \<and> next' s' = [Digest] \<and> t = mac_tag s' \<and>
          (if mac_tag s = None
           then \<exists>b. length b = 16 \<and> mac_tag s' = Some (slice_to b (mac_len s))
           else mac_tag s' = mac_tag s))"
  by (auto simp add: digest_def split: if_splits sum.splits prod.splits dest!: compute_mac_tag_eq)

lemma verify_eq:
  "verify lib secret s tag = (y, s') \<Longrightarrow>
     cache_P s' = cache_P s \<and> length (cache_A s') \<le> length (cache_A s) \<and> mac_len s' = mac_len s \<and>
     (case y of
        Inl e \<Rightarrow> (e = InvalidSequence \<and> s' = s \<and> Verify \<notin> set (next' s))
                  \<or> (e = PendingData \<and> s' = s \<and> Verify \<in> set (next' s) \<and> cache_P s \<noteq> [])
                  \<or> ((\<exists>k. e = BlockCipherError k) \<and> mac_tag s' = mac_tag s \<or> e = MacMismatch) \<and> Verify \<in> set (next' s) \<and> cache_P s = []
                     \<and> next' s' = [Verify]
      | Inr _ \<Rightarrow> Verify \<in> set (next' s) \<and> cache_P s = [] \<and> next' s' = [Verify]) \<and>
     (mac_tag s' = mac_tag s \<or> mac_tag s = None \<and> (\<exists>b. length b = 16 \<and> mac_tag s' = Some (slice_to b (mac_len s))))"
  by (auto simp add: verify_def split: if_splits sum.splits prod.splits dest!: compute_mac_tag_eq)


lemma raised_of_simps [simp]:
  "snd (raised_of r) = snd r"
  "fst (raised_of r) = None \<longleftrightarrow> (\<exists>y. fst r = Inr y)"
  "fst (raised_of r) = Some e \<longleftrightarrow> fst r = Inl e"
  by (auto simp add: raised_of_def split: prod.splits sum.splits)

lemma perform_cases:
  "perform lib s c = (x, s') \<Longrightarrow>
     (\<exists>d. c = CallUpdate d \<and> update lib s d = (fst (update lib s d), s') \<and> x = fst (raised_of (update lib s d))) \<or>
     (\<exists>d. c = CallEncrypt d \<and> encrypt lib s d = (fst (encrypt lib s d), s') \<and> x = fst (raised_of (encrypt lib s d))) \<or>
     (\<exists>d. c = CallDecrypt d \<and> decrypt lib s d = (fst (decrypt lib s d), s') \<and> x = fst (raised_of (decrypt lib s d))) \<or>
     (c = CallDigest \<and> digest lib s = (fst (digest lib s), s') \<and> x = fst (raised_of (digest lib s))) \<or>
     (\<exists>k t. c = CallVerify k t \<and> verify lib k s t = (fst (verify lib k s t), s') \<and> x = fst (raised_of (verify lib k s t)))"
  by (cases c) (auto simp add: raised_of_def split: prod.splits sum.splits)

lemma caches_ok_perform:
  assumes "caches_ok s" and "perform lib s c = (x, s')"
  shows "caches_ok s' \<and> (x = None \<longrightarrow> length (cache_A s') < 16 \<and> length (cache_P s') < 16)"
  using perform_cases [OF assms(2)] assms(1)
  apply (elim disjE exE conjE)
      apply (drule update_eq, auto simp add: caches_ok_def split: sum.splits)[1]
     apply (drule encrypt_eq, auto simp add: caches_ok_def split: sum.splits option.splits)[1]
    apply (drule decrypt_eq, auto simp add: caches_ok_def split: sum.splits option.splits)[1]
   apply (drule digest_eq, auto simp add: caches_ok_def split: sum.splits option.splits)[1]
  apply (drule verify_eq, auto simp add: caches_ok_def split: sum.splits option.splits)[1]
  done

lemma example_session_init: "OcbMode_init example_lib [1, 2, 3] 16 = Inr example_session"
  by code_simp

lemma caches_ok_new_session: "caches_ok (new_session t r)"
  by (simp add: caches_ok_def new_session_def)

lemma caches_ok_run_calls: "caches_ok s \<Longrightarrow> caches_ok (run_calls lib s cs)"
proof (induction cs arbitrary: s)
  case Nil
  then show ?case by (simp add: run_calls_def)
next
  case (Cons c cs)
  have "caches_ok (session_after lib s c)"
    using caches_ok_perform [OF Cons.prems, of lib c] by (simp add: session_after_def prod_eq_iff)
  from Cons.IH [OF this] show ?case by (simp add: run_calls_def)
qed

lemma length_slice_to: "0 \<le> m \<Longrightarrow> m \<le> int (length b) \<Longrightarrow> int (length (slice_to b m)) = m"
  by (simp add: slice_to_def)

lemma tag_ok_perform:
  assumes "0 \<le> mac_len s" "mac_len s \<le> 16" "tag_ok s" and "perform lib s c = (x, s')"
  shows "tag_ok s' \<and> mac_len s' = mac_len s"
  using perform_cases [OF assms(4)] assms(1,2,3)
  apply (elim disjE exE conjE)
      apply (drule update_eq, auto simp add: tag_ok_def split: sum.splits)[1]
     apply (drule encrypt_eq, auto simp add: tag_ok_def split: sum.splits option.splits)[1]
    apply (drule decrypt_eq, auto simp add: tag_ok_def split: sum.splits option.splits)[1]
   apply (drule digest_eq, auto simp add: tag_ok_def length_slice_to split: sum.splits option.splits if_splits)[1]
  apply (drule verify_eq, auto simp add: tag_ok_def length_slice_to split: sum.splits option.splits)[1]
  done

lemma tag_ok_run_calls:
  "0 \<le> mac_len s \<Longrightarrow> mac_len s \<le> 16 \<Longrightarrow> tag_ok s \<Longrightarrow>
     tag_ok (run_calls lib s cs) \<and> mac_len (run_calls lib s cs) = mac_len s"
proof (induction cs arbitrary: s)
  case Nil
  then show ?case by (simp add: run_calls_def)
next
  case (Cons c cs)
  have step: "tag_ok (session_after lib s c) \<and> mac_len (session_after lib s c) = mac_len s"
    using tag_ok_perform [OF Cons.prems, of lib c] by (simp add: session_after_def prod_eq_iff)
  with Cons.IH [of "session_after lib s c"] Cons.prems show ?case
    by (simp add: run_calls_def)
qed

lemma digest_again:
  assumes "digest lib s = (Inr tag, s1)"
  shows "digest lib s1 = (Inr tag, s1)"
proof -
  from digest_eq [OF assms]
  have "next' s1 = [Digest]" "cache_P s1 = []" "tag = mac_tag s1" "mac_tag s1 \<noteq> None"
    by (auto split: if_splits)
  then show ?thesis by (auto simp add: digest_def)
qed

lemma digest_funpow:
  assumes "digest lib s1 = (Inr tag, s1)"
  shows "((\<lambda>s. snd (digest lib s)) ^^ n) s1 = s1"
  using assms by (induction n) simp_all

lemma encrypt_chunks_length:
  "Encrypt \<in> set (next' s) \<Longrightarrow> length (cache_P s) \<le> 16 \<Longrightarrow>
   (case fst (encrypt_chunks lib s ps) of
      Inl e \<Rightarrow> \<exists>k. e = BlockCipherError k
    | Inr outs \<Rightarrow> length (concat outs) = length (cache_P s) + length (concat ps))"
proof (induction ps arbitrary: s)
  case Nil
  obtain y s' where e: "encrypt lib s None = (y, s')" by (cases "encrypt lib s None")
  from encrypt_eq [OF e] Nil show ?case
    by (auto simp add: e split: sum.splits)
next
  case (Cons p ps)
  obtain y s' where e: "encrypt lib s (Some p) = (y, s')" by (cases "encrypt lib s (Some p)")
  show ?case
  proof (cases y)
    case (Inl err)
    with encrypt_eq [OF e] Cons.prems show ?thesis by (auto simp add: e)
  next
    case (Inr c)
    with encrypt_eq [OF e] Cons.prems
    have s': "Encrypt \<in> set (next' s')" "length (cache_P s') \<le> 16"
      and len: "length c + length (cache_P s') = length (cache_P s) + length p"
      by auto
    from Cons.IH [OF s'] len show ?thesis
      by (auto simp add: e Inr split: sum.splits prod.splits)
  qed
qed

lemma decrypt_chunks_length:
  "Decrypt \<in> set (next' s) \<Longrightarrow> length (cache_P s) \<le> 16 \<Longrightarrow>
   (case fst (decrypt_chunks lib s cs) of
      Inl e \<Rightarrow> \<exists>k. e = BlockCipherError k
    | Inr outs \<Rightarrow> length (concat outs) = length (cache_P s) + length (concat cs))"
proof (induction cs arbitrary: s)
  case Nil
  obtain y s' where e: "decrypt lib s None = (y, s')" by (cases "decrypt lib s None")
  from decrypt_eq [OF e] Nil show ?case
    by (auto simp add: e split: sum.splits)
next
  case (Cons c cs)
  obtain y s' where e: "decrypt lib s (Some c) = (y, s')" by (cases "decrypt lib s (Some c)")
  show ?case
  proof (cases y)
    case (Inl err)
    with decrypt_eq [OF e] Cons.prems show ?thesis by (auto simp add: e)
  next
    case (Inr p)
    with decrypt_eq [OF e] Cons.prems
    have s': "Decrypt \<in> set (next' s')" "length (cache_P s') \<le> 16"
      and len: "length p + length (cache_P s') = length (cache_P s) + length c"
      by auto
    from Cons.IH [OF s'] len show ?thesis
      by (auto simp add: e Inr split: sum.splits prod.splits)
  qed
qed

section \<open>The nonce block and the initial offset\<close>

lemma first_byte: "(word_of_int (push_bit 4 t AND 255) :: byte) = word_of_int (push_bit 1 (t * 8 mod 128))"
proof -
  have "push_bit 4 t AND 255 = take_bit 8 (push_bit 4 t)"
    by (simp add: take_bit_eq_mask mask_eq_exp_minus_1)
  moreover have "2 * (t * 8 mod 128) = (2 * (t * 8)) mod (2 * 128)"
    by (simp only: mult_mod_right)
  then have "push_bit 1 (t * 8 mod 128) = take_bit 8 (push_bit 4 t)"
    by (simp add: push_bit_eq_mult take_bit_eq_mod mult.commute)
  ultimately show ?thesis by simp
qed

lemma bytes_to_long_snoc: "bytes_to_long (bs @ [b]) = concat_bit 8 (uint b) (bytes_to_long bs)"
  by (simp add: bytes_to_long_def concat_bit_eq push_bit_eq_mult take_bit_int_eq_self uint_bounded [where 'a=8, simplified])

lemma bit_bytes_to_long:
  "bit (bytes_to_long bs) n \<longleftrightarrow> n < 8 * length bs \<and> bit (bs ! (length bs - 1 - n div 8)) (n mod 8)"
proof (induction bs arbitrary: n rule: rev_induct)
  case Nil
  then show ?case by (simp add: bytes_to_long_def)
next
  case (snoc b bs)
  show ?case
  proof (cases "n < 8")
    case True
    then show ?thesis
      by (simp add: bytes_to_long_snoc bit_concat_bit_iff bit_uint_iff)
  next
    case False
    then obtain m where m: "n = m + 8" by (metis add.commute le_add_diff_inverse not_less)
    have d: "(m + 8) div 8 = Suc (m div 8)" by simp
    show ?thesis
      by (auto simp add: m d bytes_to_long_snoc bit_concat_bit_iff snoc.IH nth_append)
  qed
qed


lemma bytes_to_long_nonneg: "0 \<le> bytes_to_long bs"
  by (induction bs rule: rev_induct) (simp_all add: bytes_to_long_def)

lemma bytes_to_long_less: "bytes_to_long bs < 2 ^ (8 * length bs)"
proof -
  have "take_bit (8 * length bs) (bytes_to_long bs) = bytes_to_long bs"
    by (rule bit_eqI) (auto simp add: bit_take_bit_iff bit_bytes_to_long)
  then show ?thesis
    by (metis take_bit_int_less_exp)
qed

lemma bytes_to_long_replicate_0: "bytes_to_long (replicate n 0 @ bs) = bytes_to_long bs"
  by (induction n) (simp_all add: bytes_to_long_def)

lemma bytes_to_long_be_bytes: "0 \<le> y \<Longrightarrow> bytes_to_long (be_bytes y) = y"
proof (induction y rule: be_bytes.induct)
  case (1 n)
  show ?case
  proof (cases "n \<le> 0")
    case True
    then have "be_bytes n = []" by (subst be_bytes.simps) simp
    with True 1 show ?thesis by (simp add: bytes_to_long_def)
  next
    case False
    with 1 have "bytes_to_long (be_bytes (n div 256)) = n div 256" by simp
    with False show ?thesis
      by (simp add: be_bytes.simps [of n] bytes_to_long_def uint_word_of_int take_bit_eq_mod)
  qed
qed

lemma length_be_bytes: "0 \<le> y \<Longrightarrow> y < 256 ^ k \<Longrightarrow> length (be_bytes y) \<le> k"
proof (induction k arbitrary: y)
  case 0
  then show ?case by (simp add: be_bytes.simps [of y])
next
  case (Suc k)
  show ?case
  proof (cases "y \<le> 0")
    case True
    then show ?thesis by (simp add: be_bytes.simps [of y])
  next
    case False
    from Suc.prems have "y div 256 < 256 ^ k" by simp
    moreover from Suc.prems have "0 \<le> y div 256" by simp
    ultimately have "length (be_bytes (y div 256)) \<le> k" by (rule Suc.IH [rotated])
    with False show ?thesis by (simp add: be_bytes.simps [of y])
  qed
qed

lemma long_to_bytes_24:
  assumes "0 \<le> y" and "y < 2 ^ 192"
  shows "length (long_to_bytes y 24) = 24 \<and> bytes_to_long (long_to_bytes y 24) = y"
proof -
  have "y < 256 ^ 24" using assms(2) by simp
  from length_be_bytes [OF assms(1) this] have l: "length (be_bytes y) \<le> 24" .
  show ?thesis
  proof (cases "be_bytes y = []")
    case True
    with bytes_to_long_be_bytes [OF assms(1)] have "y = 0" by (simp add: bytes_to_long_def)
    with True show ?thesis
      by (simp add: long_to_bytes_def bytes_to_long_replicate_0 [where bs="[0]", simplified] )
        (simp add: bytes_to_long_def replicate_app_Cons_same bytes_to_long_replicate_0 [where bs="[]", simplified])
  next
    case False
    with l bytes_to_long_be_bytes [OF assms(1)] show ?thesis
      by (cases "length (be_bytes y) = 24")
        (auto simp add: long_to_bytes_def bytes_to_long_replicate_0 Let_def)
  qed
qed


lemma bit_long_to_bytes_24:
  assumes "0 \<le> y" and "y < 2 ^ 192" and "i < 24" and "k < 8"
  shows "bit (long_to_bytes y 24 ! i) k \<longleftrightarrow> bit y (8 * (23 - i) + k)"
proof -
  from long_to_bytes_24 [OF assms(1,2)]
  have l: "length (long_to_bytes y 24) = 24" and v: "bytes_to_long (long_to_bytes y 24) = y"
    by simp_all
  have "bit y (8 * (23 - i) + k) \<longleftrightarrow> bit (bytes_to_long (long_to_bytes y 24)) (8 * (23 - i) + k)"
    by (simp add: v)
  also have "\<dots> \<longleftrightarrow> bit (long_to_bytes y 24 ! i) k"
  proof -
    have "8 * (23 - i) + k < 192" "(8 * (23 - i) + k) div 8 = 23 - i" "23 - (23 - i) = i"
      using assms(3,4) by simp_all
    then show ?thesis using assms(4) by (simp add: bit_bytes_to_long l)
  qed
  finally show ?thesis by simp
qed

lemma bit_shift_or:
  "bit (push_bit 1 w OR of_bool b :: byte) k \<longleftrightarrow> (if k = 0 then b else k < 8 \<and> bit w (k - 1))"
  by (cases k) (auto simp add: bit_or_iff bit_of_bool_iff bit_push_bit_iff possible_bit_word
      simp del: push_bit_Suc)

lemma bit_foldl_bits:
  "k < 8 \<Longrightarrow>
   bit (foldl (\<lambda>w b. push_bit 1 w OR of_bool b) (w :: byte) bits) k \<longleftrightarrow>
     (if k < length bits then bits ! (length bits - 1 - k) else bit w (k - length bits))"
proof (induction bits arbitrary: w)
  case Nil
  then show ?case by simp
next
  case (Cons b bs)
  have step: "bit (foldl (\<lambda>w b. push_bit 1 w OR of_bool b) w (b # bs)) k \<longleftrightarrow>
      (if k < length bs then bs ! (length bs - 1 - k)
       else bit (push_bit 1 w OR of_bool b) (k - length bs))"
    using Cons.IH [OF Cons.prems, of "push_bit 1 w OR of_bool b"]
    by (simp only: foldl_Cons)
  show ?case
  proof (cases "k < length bs")
    case True
    then have "Suc (length bs) - 1 - k = Suc (length bs - 1 - k)" by simp
    with True show ?thesis unfolding step by simp
  next
    case False
    show ?thesis
    proof (cases "k = length bs")
      case True
      show ?thesis unfolding step bit_shift_or using True by simp
    next
      case False
      with \<open>\<not> k < length bs\<close> have "length bs < k" by simp
      then obtain m where m: "k = Suc (length bs + m)" by (metis less_iff_Suc_add)
      show ?thesis unfolding step bit_shift_or using m Cons.prems by simp
    qed
  qed
qed

lemma bit_byte_of_bits:
  "length bits = 8 \<Longrightarrow> k < 8 \<Longrightarrow> bit (byte_of_bits bits) k \<longleftrightarrow> bits ! (7 - k)"
  by (simp only: byte_of_bits_def bit_foldl_bits) simp

lemma length_stretch_of: "length ktop = 16 \<Longrightarrow> length (stretch_of ktop) = 24"
  by (simp add: stretch_of_def strxor_def)

lemma offset_0_of_nth:
  assumes "length S = 24" and "bottom \<le> 63" and "j < 16" and "k < 8"
  shows "length (offset_0_of S (int bottom)) = 16"
    and "bit (offset_0_of S (int bottom) ! j) k \<longleftrightarrow> bit (bytes_to_long S) (184 - bottom - 8 * j + k)"
proof -
  define Y where "Y = drop_bit (nat (64 - int bottom)) (bytes_to_long S)"
  have "take_bit 192 Y = Y"
    using assms(1) by (intro bit_eqI) (auto simp add: Y_def bit_take_bit_iff bit_drop_bit_eq bit_bytes_to_long)
  then have "Y < 2 ^ 192" by (metis take_bit_int_less_exp)
  then have Y: "0 \<le> Y" "Y < 2 ^ 192"
    using bytes_to_long_nonneg [of S] by (simp_all add: Y_def)
  from long_to_bytes_24 [OF Y] show "length (offset_0_of S (int bottom)) = 16"
    by (simp add: offset_0_of_def Y_def)
  have "bit (offset_0_of S (int bottom) ! j) k \<longleftrightarrow> bit (long_to_bytes Y 24 ! (8 + j)) k"
    using long_to_bytes_24 [OF Y] assms(3) by (simp add: offset_0_of_def Y_def)
  also have "\<dots> \<longleftrightarrow> bit Y (8 * (23 - (8 + j)) + k)"
    using assms(3,4) by (simp add: bit_long_to_bytes_24 [OF Y])
  also have "\<dots> \<longleftrightarrow> bit (bytes_to_long S) (nat (64 - int bottom) + (8 * (23 - (8 + j)) + k))"
    by (simp add: Y_def bit_drop_bit_eq)
  also have "nat (64 - int bottom) + (8 * (23 - (8 + j)) + k) = 184 - bottom - 8 * j + k"
    using assms(2,3) by simp
  finally show "bit (offset_0_of S (int bottom) ! j) k \<longleftrightarrow>
                bit (bytes_to_long S) (184 - bottom - 8 * j + k)" .
qed

text \<open>
  C5, as stated, fails: for the nonce 01 02 03 and tag length 16 the block of the code is
  not the byte, 15 - 3 zero bytes, the byte 1 and the nonce; that concatenation has 17
  bytes, not 16.
\<close>

theorem nonce_block_counterexample:
  "nonce_block 16 [1, 2, 3] \<noteq>
     [word_of_int (push_bit 1 (16 * 8 mod 128))] @ replicate (15 - length [1, 2, 3 :: byte]) 0
       @ [1] @ [1, 2, 3] \<and>
   length ([word_of_int (push_bit 1 (16 * 8 mod 128)) :: byte]
             @ replicate (15 - length [1, 2, 3 :: byte]) 0 @ [1] @ [1, 2, 3]) \<noteq> 16"
  by (simp add: nonce_block_def bchr_def)

text \<open>
  C5, amended: for a nonce of 1 to 14 bytes and a tag length of 8 to 16, the nonce block is
  the byte \<open>(tag_len * 8 mod 128) << 1\<close>, then 14 - len(N) zero bytes, then the byte 1, then
  the nonce, 16 bytes in all.
\<close>

theorem nonce_block_layout:
  assumes "1 \<le> length N" and "length N \<le> 14" and "8 \<le> t" and "t \<le> 16"
  shows "nonce_block t N =
           [word_of_int (push_bit 1 (t * 8 mod 128))] @ replicate (14 - length N) 0 @ [1] @ N \<and>
         length (nonce_block t N) = 16"
  using assms by (simp add: nonce_block_def bchr_def first_byte nat_diff_distrib')

theorem nonce_block_layout_witness:
  "1 \<le> length [1, 2, 3 :: byte] \<and> length [1, 2, 3 :: byte] \<le> 14 \<and> (8 :: int) \<le> 16 \<and>
   (16 :: int) \<le> 16 \<and>
   nonce_block 16 [1, 2, 3] = [0, 0, 0, 0, 0, 0, 0, 0, 0, 0, 0, 0, 1, 1, 2, 3] \<and>
   length (nonce_block 16 [1, 2, 3]) = 16"
  using nonce_block_layout [of "[1, 2, 3]" 16] by (simp add: eval_nat_numeral)

text \<open>
  C6: for a 16-byte \<open>Ktop\<close> and \<open>bottom\<close> from 0 to 63, the bytes that lines 174 and 175
  compute from \<open>Stretch\<close> are the bits \<open>1 + bottom\<close> to \<open>128 + bottom\<close> of \<open>Stretch\<close>.
\<close>

theorem offset_0_refines_spec:
  assumes "length ktop = 16" and "bottom \<le> 63"
  shows "offset_0_of (stretch_of ktop) (int bottom) = Offset_0_spec (stretch_of ktop) bottom"
proof (rule nth_equalityI)
  let ?S = "stretch_of ktop"
  have lS: "length ?S = 24" by (rule length_stretch_of [OF assms(1)])
  show "length (offset_0_of ?S (int bottom)) = length (Offset_0_spec ?S bottom)"
    using offset_0_of_nth(1) [OF lS assms(2), of 0 0] by (simp add: Offset_0_spec_def)
  fix j assume "j < length (offset_0_of ?S (int bottom))"
  then have j: "j < 16" using offset_0_of_nth(1) [OF lS assms(2), of 0 0] by simp
  show "offset_0_of ?S (int bottom) ! j = Offset_0_spec ?S bottom ! j"
  proof (rule bit_word_eqI)
    fix k assume "k < LENGTH(8)"
    then have k: "k < 8" by simp
    define m where "m = bottom + 8 * j + (7 - k)"
    have m: "m \<le> 190" using assms(2) j k by (simp add: m_def)
    have a1: "184 - bottom - 8 * j + k = 191 - m" using assms(2) j k by (simp add: m_def)
    define q r where "q = 23 - m div 8" and "r = 7 - m mod 8"
    have r: "r < 8" by (simp add: r_def)
    have e: "191 - m = q * 8 + r"
      using m unfolding q_def r_def by (simp add: algebra_simps)
    have d: "(q * 8 + r) div 8 = q" "(q * 8 + r) mod 8 = r"
      using r by simp_all
    have a2: "(191 - m) div 8 = 23 - m div 8" "(191 - m) mod 8 = 7 - m mod 8"
      unfolding e d by (simp_all only: q_def r_def)
    have a3: "23 - (23 - m div 8) = m div 8" "191 - m < 192" using m by simp_all
    have "bit (offset_0_of ?S (int bottom) ! j) k \<longleftrightarrow> bit (bytes_to_long ?S) (191 - m)"
      unfolding a1 [symmetric] by (rule offset_0_of_nth(2) [OF lS assms(2) j k])
    also have "\<dots> \<longleftrightarrow> bit (?S ! (m div 8)) (7 - m mod 8)"
      using m by (simp add: bit_bytes_to_long lS a2 a3)
    also have "\<dots> \<longleftrightarrow> stretch_bit ?S (1 + bottom + 8 * j + (7 - k))"
      by (simp add: stretch_bit_def m_def)
    also have "\<dots> \<longleftrightarrow> bit (Offset_0_spec ?S bottom ! j) k"
      using j k by (simp add: Offset_0_spec_def bit_byte_of_bits)
    finally show "bit (offset_0_of ?S (int bottom) ! j) k \<longleftrightarrow> bit (Offset_0_spec ?S bottom ! j) k" .
  qed
qed

theorem offset_0_refines_spec_witness:
  "length [1, 2, 3, 4, 5, 6, 7, 8, 9, 10, 11, 12, 13, 14, 15, 16 :: byte] = 16 \<and>
   (5 :: nat) \<le> 63 \<and>
   offset_0_of (stretch_of [1, 2, 3, 4, 5, 6, 7, 8, 9, 10, 11, 12, 13, 14, 15, 16]) (int 5)
     = [32, 64, 96, 128, 160, 192, 225, 1, 33, 65, 97, 129, 161, 193, 226, 0] \<and>
   Offset_0_spec (stretch_of [1, 2, 3, 4, 5, 6, 7, 8, 9, 10, 11, 12, 13, 14, 15, 16]) 5
     = [32, 64, 96, 128, 160, 192, 225, 1, 33, 65, 97, 129, 161, 193, 226, 0]"
proof -
  have l: "length [1, 2, 3, 4, 5, 6, 7, 8, 9, 10, 11, 12, 13, 14, 15, 16 :: byte] = 16"
    and b: "(5 :: nat) \<le> 63"
    by simp_all
  have v: "Offset_0_spec (stretch_of [1, 2, 3, 4, 5, 6, 7, 8, 9, 10, 11, 12, 13, 14, 15, 16]) 5
     = [32, 64, 96, 128, 160, 192, 225, 1, 33, 65, 97, 129, 161, 193, 226, 0]"
    by code_simp
  from offset_0_refines_spec [OF l b] v l b show ?thesis by simp
qed

section \<open>The claims on the call sequence\<close>

text \<open>
  C1 (the code at the failing input): in the example session, \<^verbatim>\<open>decrypt\<close> of one block of
  zero bytes followed by \<^verbatim>\<open>digest()\<close> does not raise: \<^verbatim>\<open>digest\<close> returns a tag.
\<close>

theorem digest_after_decrypt_returns_tag:
  "fst (digest example_lib (snd (decrypt example_lib example_session (Some (replicate 16 0)))))
     = Inr (Some [15, 88, 185, 93, 122, 189, 222, 255, 241, 224, 171, 209, 119, 97, 132, 161])"
  by code_simp

text \<open>
  C2, as stated, fails: in the example session \<^verbatim>\<open>encrypt\<close> of one block of zero bytes
  leaves nothing buffered, and \<^verbatim>\<open>digest()\<close> right after it returns the tag instead of
  raising \<open>InvalidSequence\<close>.
\<close>

theorem digest_without_final_encrypt_counterexample:
  "cache_P (snd (encrypt example_lib example_session (Some (replicate 16 0)))) = [] \<and>
   fst (digest example_lib (snd (encrypt example_lib example_session (Some (replicate 16 0)))))
     = Inr (Some [16, 244, 249, 213, 2, 82, 145, 15, 239, 11, 6, 43, 5, 165, 62, 241]) \<and>
   fst (digest example_lib (snd (encrypt example_lib example_session (Some (replicate 16 0)))))
     \<noteq> Inl InvalidSequence"
  by code_simp

text \<open>
  C2, amended: after \<^verbatim>\<open>encrypt\<close> returns, with data or with \<^verbatim>\<open>None\<close>, \<^verbatim>\<open>digest()\<close> never
  raises \<open>InvalidSequence\<close>. It raises \<open>PendingData\<close> exactly when message bytes are still
  buffered, which needs a call with data; with nothing buffered it returns the tag, unless
  the raw library reports an error. After \<^verbatim>\<open>decrypt(None)\<close> returns, \<^verbatim>\<open>verify\<close> raises
  neither \<open>InvalidSequence\<close> nor \<open>PendingData\<close>.
\<close>

theorem digest_after_encrypt:
  "(fst (encrypt lib s x) = Inr c \<longrightarrow>
      (case fst (digest lib (snd (encrypt lib s x))) of
         Inr t \<Rightarrow> t \<noteq> None \<and> cache_P (snd (encrypt lib s x)) = []
       | Inl e \<Rightarrow> e = PendingData \<and> cache_P (snd (encrypt lib s x)) \<noteq> [] \<and> x \<noteq> None \<or>
                  (\<exists>k. e = BlockCipherError k) \<and> cache_P (snd (encrypt lib s x)) = [])) \<and>
   (fst (decrypt lib s None) = Inr p \<longrightarrow>
      (case fst (verify lib secret (snd (decrypt lib s None)) tag) of
         Inr _ \<Rightarrow> True
       | Inl e \<Rightarrow> e = MacMismatch \<or> (\<exists>k. e = BlockCipherError k)))"
proof (intro conjI impI)
  assume a: "fst (encrypt lib s x) = Inr c"
  define s1 where "s1 = snd (encrypt lib s x)"
  have e: "encrypt lib s x = (Inr c, s1)"
    using a by (simp add: prod_eq_iff s1_def)
  obtain y s' where d: "digest lib s1 = (y, s')"
    by (cases "digest lib s1")
  from encrypt_eq [OF e] have n: "Digest \<in> set (next' s1)" and q: "x = None \<longrightarrow> cache_P s1 = []"
    by (cases x; simp)+
  from digest_eq [OF d] n q
  have "case y of
         Inr t \<Rightarrow> t \<noteq> None \<and> cache_P s1 = []
       | Inl e \<Rightarrow> e = PendingData \<and> cache_P s1 \<noteq> [] \<and> x \<noteq> None \<or>
                  (\<exists>k. e = BlockCipherError k) \<and> cache_P s1 = []"
    by (auto split: sum.splits if_splits)
  then show "case fst (digest lib (snd (encrypt lib s x))) of
         Inr t \<Rightarrow> t \<noteq> None \<and> cache_P (snd (encrypt lib s x)) = []
       | Inl e \<Rightarrow> e = PendingData \<and> cache_P (snd (encrypt lib s x)) \<noteq> [] \<and> x \<noteq> None \<or>
                  (\<exists>k. e = BlockCipherError k) \<and> cache_P (snd (encrypt lib s x)) = []"
    unfolding s1_def [symmetric] by (simp add: d)
next
  assume a: "fst (decrypt lib s None) = Inr p"
  define s2 where "s2 = snd (decrypt lib s None)"
  have e: "decrypt lib s None = (Inr p, s2)"
    using a by (simp add: prod_eq_iff s2_def)
  obtain y s' where d: "verify lib secret s2 tag = (y, s')"
    by (cases "verify lib secret s2 tag")
  from decrypt_eq [OF e] have n: "Verify \<in> set (next' s2)" and q: "cache_P s2 = []"
    by simp_all
  from verify_eq [OF d] n q
  have "case y of Inr _ \<Rightarrow> True | Inl e \<Rightarrow> e = MacMismatch \<or> (\<exists>k. e = BlockCipherError k)"
    by (auto split: sum.splits)
  then show "case fst (verify lib secret (snd (decrypt lib s None)) tag) of
         Inr _ \<Rightarrow> True
       | Inl e \<Rightarrow> e = MacMismatch \<or> (\<exists>k. e = BlockCipherError k)"
    unfolding s2_def [symmetric] by (simp add: d)
qed

theorem digest_after_encrypt_witness:
  "fst (encrypt example_lib example_session (Some [1, 2, 3])) = Inr [] \<and>
   (case fst (digest example_lib (snd (encrypt example_lib example_session (Some [1, 2, 3])))) of
      Inr t \<Rightarrow> t \<noteq> None \<and>
        cache_P (snd (encrypt example_lib example_session (Some [1, 2, 3]))) = []
    | Inl e \<Rightarrow>
        e = PendingData \<and>
        cache_P (snd (encrypt example_lib example_session (Some [1, 2, 3]))) \<noteq> [] \<and>
        Some [1, 2, 3] \<noteq> (None :: bytes option) \<or>
        (\<exists>k. e = BlockCipherError k) \<and>
        cache_P (snd (encrypt example_lib example_session (Some [1, 2, 3]))) = []) \<and>
   fst (decrypt example_lib example_session None) = Inr [] \<and>
   (case fst (verify example_lib [7] (snd (decrypt example_lib example_session None)) [1]) of
      Inr _ \<Rightarrow> True
    | Inl e \<Rightarrow> e = MacMismatch \<or> (\<exists>k. e = BlockCipherError k))"
proof -
  have h1: "fst (encrypt example_lib example_session (Some [1, 2, 3])) = Inr []"
    by code_simp
  have h2: "fst (decrypt example_lib example_session None) = Inr []"
    by code_simp
  from digest_after_encrypt [where lib=example_lib and s=example_session and x="Some [1, 2, 3]"
      and c="[]" and p="[]" and secret="[7]" and tag="[1]"]
    h1 h2
  show ?thesis by simp
qed

text \<open>
  C3, as stated, fails: in the example session \<^verbatim>\<open>encrypt\<close> of three bytes buffers them,
  \<^verbatim>\<open>digest()\<close> then raises \<open>PendingData\<close>, and the next call, \<^verbatim>\<open>encrypt(None)\<close>, returns the
  three ciphertext bytes instead of raising \<open>InvalidSequence\<close>.
\<close>

theorem call_after_error_counterexample:
  "fst (digest example_lib (snd (encrypt example_lib example_session (Some [1, 2, 3]))))
     = Inl PendingData \<and>
   fst (encrypt example_lib
          (snd (digest example_lib (snd (encrypt example_lib example_session (Some [1, 2, 3])))))
          None)
     = Inr [8, 94, 176]"
  by code_simp

text \<open>
  C3, amended: a call that raises \<open>InvalidSequence\<close> or \<open>PendingData\<close> leaves the session
  exactly as it was before the call. There is no closed state: what was permitted before
  the failed call is permitted after it.
\<close>

theorem failed_check_keeps_session:
  assumes "fst (perform lib s c) = Some InvalidSequence \<or> fst (perform lib s c) = Some PendingData"
  shows "snd (perform lib s c) = s"
proof -
  obtain x s' where p: "perform lib s c = (x, s')" by (cases "perform lib s c")
  have "x = Some InvalidSequence \<or> x = Some PendingData"
    using assms by (simp add: p)
  with perform_cases [OF p] have "s' = s"
    by (elim disjE exE conjE)
      (auto dest!: update_eq encrypt_eq decrypt_eq digest_eq verify_eq split: sum.splits)
  then show ?thesis by (simp add: p)
qed

theorem failed_check_keeps_session_witness:
  "(fst (perform example_lib (snd (encrypt example_lib example_session (Some [1, 2, 3])))
           CallDigest) = Some InvalidSequence \<or>
    fst (perform example_lib (snd (encrypt example_lib example_session (Some [1, 2, 3])))
           CallDigest) = Some PendingData) \<and>
   snd (perform example_lib (snd (encrypt example_lib example_session (Some [1, 2, 3])))
          CallDigest)
     = snd (encrypt example_lib example_session (Some [1, 2, 3]))"
proof -
  have h: "fst (perform example_lib (snd (encrypt example_lib example_session (Some [1, 2, 3])))
                  CallDigest) = Some PendingData"
    by code_simp
  then have h': "fst (perform example_lib
                        (snd (encrypt example_lib example_session (Some [1, 2, 3])))
                        CallDigest) = Some InvalidSequence \<or>
                 fst (perform example_lib
                        (snd (encrypt example_lib example_session (Some [1, 2, 3])))
                        CallDigest) = Some PendingData"
    by (rule disjI2)
  from failed_check_keeps_session [OF h'] h' show ?thesis by (rule_tac conjI)
qed

text \<open>
  C8: from a session with an empty message cache in which \<^verbatim>\<open>encrypt\<close> is permitted, the
  calls \<^verbatim>\<open>encrypt(p)\<close> for each piece followed by \<^verbatim>\<open>encrypt(None)\<close> either stop at an error
  of the raw library or return, in total, as many bytes as the pieces hold. The same for
  \<^verbatim>\<open>decrypt\<close>.
\<close>

theorem length_preservation:
  assumes "cache_P s = []"
  shows "(Encrypt \<in> set (next' s) \<longrightarrow>
            (case fst (encrypt_chunks lib s ps) of
               Inl e \<Rightarrow> \<exists>k. e = BlockCipherError k
             | Inr outs \<Rightarrow> length (concat outs) = length (concat ps))) \<and>
         (Decrypt \<in> set (next' s) \<longrightarrow>
            (case fst (decrypt_chunks lib s ps) of
               Inl e \<Rightarrow> \<exists>k. e = BlockCipherError k
             | Inr outs \<Rightarrow> length (concat outs) = length (concat ps)))"
  using encrypt_chunks_length [where s=s and lib=lib and ps=ps]
    decrypt_chunks_length [where s=s and lib=lib and cs=ps] assms
  by (auto split: sum.splits)

theorem length_preservation_witness:
  "cache_P example_session = [] \<and>
   Encrypt \<in> set (next' example_session) \<and>
   Decrypt \<in> set (next' example_session) \<and>
   fst (encrypt_chunks example_lib example_session [replicate 10 1, replicate 10 2])
     = Inr [[],
            [0, 46, 187, 168, 159, 109, 127, 113, 6, 229, 201, 154, 187, 182, 244, 18],
            [15, 213, 195, 47]] \<and>
   fst (decrypt_chunks example_lib example_session [replicate 10 1, replicate 10 2])
     = Inr [[],
            [6, 229, 196, 153, 138, 181, 211, 17, 0, 46, 188, 165, 136, 94, 80, 114],
            [15, 213, 195, 47]] \<and>
   (case fst (encrypt_chunks example_lib example_session [replicate 10 1, replicate 10 2]) of
      Inl e \<Rightarrow> \<exists>k. e = BlockCipherError k
    | Inr outs \<Rightarrow> length (concat outs) = length (concat [replicate 10 (1 :: byte), replicate 10 2])) \<and>
   (case fst (decrypt_chunks example_lib example_session [replicate 10 1, replicate 10 2]) of
      Inl e \<Rightarrow> \<exists>k. e = BlockCipherError k
    | Inr outs \<Rightarrow> length (concat outs) = length (concat [replicate 10 (1 :: byte), replicate 10 2]))"
proof -
  have h: "cache_P example_session = []"
    and e: "Encrypt \<in> set (next' example_session)"
    and d: "Decrypt \<in> set (next' example_session)"
    by (simp_all add: example_session_def new_session_def)
  have v1: "fst (encrypt_chunks example_lib example_session [replicate 10 1, replicate 10 2])
     = Inr [[],
            [0, 46, 187, 168, 159, 109, 127, 113, 6, 229, 201, 154, 187, 182, 244, 18],
            [15, 213, 195, 47]]"
    by code_simp
  have v2: "fst (decrypt_chunks example_lib example_session [replicate 10 1, replicate 10 2])
     = Inr [[],
            [6, 229, 196, 153, 138, 181, 211, 17, 0, 46, 188, 165, 136, 94, 80, 114],
            [15, 213, 195, 47]]"
    by code_simp
  from length_preservation [OF h, where lib=example_lib and ps="[replicate 10 1, replicate 10 2]"]
    e d
  have "(case fst (encrypt_chunks example_lib example_session [replicate 10 1, replicate 10 2]) of
      Inl e \<Rightarrow> \<exists>k. e = BlockCipherError k
    | Inr outs \<Rightarrow> length (concat outs) = length (concat [replicate 10 (1 :: byte), replicate 10 2])) \<and>
   (case fst (decrypt_chunks example_lib example_session [replicate 10 1, replicate 10 2]) of
      Inl e \<Rightarrow> \<exists>k. e = BlockCipherError k
    | Inr outs \<Rightarrow> length (concat outs) = length (concat [replicate 10 (1 :: byte), replicate 10 2]))"
    by blast
  with h e d v1 v2 show ?thesis by blast
qed

text \<open>
  C9: in a session reached from a new one by any calls, whether they returned or raised,
  a call that returns leaves fewer than 16 bytes in the associated-data cache and fewer
  than 16 bytes in the message cache.
\<close>

theorem caches_below_block_size:
  assumes "fst (perform lib (run_calls lib (new_session t r) cs) c) = None"
  shows "length (cache_A (snd (perform lib (run_calls lib (new_session t r) cs) c))) < 16 \<and>
         length (cache_P (snd (perform lib (run_calls lib (new_session t r) cs) c))) < 16"
proof -
  have "caches_ok (run_calls lib (new_session t r) cs)"
    by (rule caches_ok_run_calls [OF caches_ok_new_session])
  from caches_ok_perform [OF this, of lib c] assms show ?thesis
    by (simp add: prod_eq_iff)
qed

theorem caches_below_block_size_witness:
  "fst (perform example_lib
          (run_calls example_lib (new_session 16 (ocb_start (replicate 16 0)))
             [CallUpdate [1, 2, 3], CallEncrypt (Some (replicate 20 7))])
          (CallEncrypt (Some [5, 6]))) = None \<and>
   length (cache_A (snd (perform example_lib
          (run_calls example_lib (new_session 16 (ocb_start (replicate 16 0)))
             [CallUpdate [1, 2, 3], CallEncrypt (Some (replicate 20 7))])
          (CallEncrypt (Some [5, 6]))))) < 16 \<and>
   length (cache_P (snd (perform example_lib
          (run_calls example_lib (new_session 16 (ocb_start (replicate 16 0)))
             [CallUpdate [1, 2, 3], CallEncrypt (Some (replicate 20 7))])
          (CallEncrypt (Some [5, 6]))))) < 16"
proof -
  have h: "fst (perform example_lib
          (run_calls example_lib (new_session 16 (ocb_start (replicate 16 0)))
             [CallUpdate [1, 2, 3], CallEncrypt (Some (replicate 20 7))])
          (CallEncrypt (Some [5, 6]))) = None"
    by code_simp
  from caches_below_block_size [OF h] h show ?thesis by simp
qed

text \<open>
  C10: in a session reached from a new one (tag length 8 to 16) by any calls, once
  \<^verbatim>\<open>digest()\<close> has returned a tag, the tag is a byte string of length \<^verbatim>\<open>mac_len\<close>, and every
  further \<^verbatim>\<open>digest()\<close> returns the same tag and leaves the whole session as it is.
\<close>

theorem digest_idempotent:
  assumes "8 \<le> t" and "t \<le> 16"
    and "fst (digest lib (run_calls lib (new_session t r) cs)) = Inr tag"
  shows "(\<exists>b. tag = Some b \<and> int (length b) = t) \<and>
         (\<forall>n. digest lib (((\<lambda>s. snd (digest lib s)) ^^ n)
                  (snd (digest lib (run_calls lib (new_session t r) cs))))
               = (Inr tag, snd (digest lib (run_calls lib (new_session t r) cs))))"
proof -
  define s1 where "s1 = snd (digest lib (run_calls lib (new_session t r) cs))"
  have dg: "digest lib (run_calls lib (new_session t r) cs) = (Inr tag, s1)"
    using assms(3) by (simp add: prod_eq_iff s1_def)
  have ok: "tag_ok (run_calls lib (new_session t r) cs) \<and>
            mac_len (run_calls lib (new_session t r) cs) = t"
    using tag_ok_run_calls [of "new_session t r" lib cs] assms(1,2)
    by (simp add: new_session_def tag_ok_def)
  have "perform lib (run_calls lib (new_session t r) cs) CallDigest = (None, s1)"
    using dg by (simp add: raised_of_def)
  from tag_ok_perform [OF _ _ _ this] ok assms(1,2)
  have "tag_ok s1" "mac_len s1 = t" by simp_all
  moreover from digest_eq [OF dg] have "tag = mac_tag s1" "mac_tag s1 \<noteq> None"
    by (auto split: if_splits)
  ultimately have len: "\<exists>b. tag = Some b \<and> int (length b) = t"
    by (auto simp add: tag_ok_def)
  have again: "digest lib s1 = (Inr tag, s1)"
    by (rule digest_again [OF dg])
  show ?thesis
    unfolding s1_def [symmetric]
    using len again by (simp add: digest_funpow [OF again])
qed

theorem digest_idempotent_witness:
  "(8 :: int) \<le> 16 \<and> (16 :: int) \<le> 16 \<and>
   fst (digest example_lib
          (run_calls example_lib (new_session 16 (ocb_start (replicate 16 0)))
             [CallUpdate [9, 9], CallEncrypt (Some [1, 2, 3]), CallEncrypt None]))
     = Inr (Some [10, 197, 27, 95, 55, 255, 191, 255, 255, 251, 255, 113, 253, 248, 236, 96]) \<and>
   (\<exists>b. Some [10, 197, 27, 95, 55, 255, 191, 255, 255, 251, 255, 113, 253, 248, 236, 96] = Some b \<and>
        int (length (b :: bytes)) = 16) \<and>
   (\<forall>n. digest example_lib (((\<lambda>s. snd (digest example_lib s)) ^^ n)
            (snd (digest example_lib
               (run_calls example_lib (new_session 16 (ocb_start (replicate 16 0)))
                  [CallUpdate [9, 9], CallEncrypt (Some [1, 2, 3]), CallEncrypt None]))))
         = (Inr (Some [10, 197, 27, 95, 55, 255, 191, 255, 255, 251, 255, 113, 253, 248, 236, 96]),
            snd (digest example_lib
               (run_calls example_lib (new_session 16 (ocb_start (replicate 16 0)))
                  [CallUpdate [9, 9], CallEncrypt (Some [1, 2, 3]), CallEncrypt None]))))"
proof -
  have h: "fst (digest example_lib
          (run_calls example_lib (new_session 16 (ocb_start (replicate 16 0)))
             [CallUpdate [9, 9], CallEncrypt (Some [1, 2, 3]), CallEncrypt None]))
     = Inr (Some [10, 197, 27, 95, 55, 255, 191, 255, 255, 251, 255, 113, 253, 248, 236, 96])"
    by code_simp
  have b1: "(8 :: int) \<le> 16" and b2: "(16 :: int) \<le> 16" by simp_all
  from digest_idempotent [OF b1 b2 h] h b1 b2 show ?thesis by blast
qed

section \<open>Blocks and the raw engine\<close>

lemma length_bytes_of_block [simp]: "length (bytes_of_block w) = 16"
  by (simp add: bytes_of_block_def)

lemma bit_bytes_of_block_nth:
  "i < 16 \<Longrightarrow> k < 8 \<Longrightarrow> bit (bytes_of_block w ! i) k \<longleftrightarrow> bit w (8 * (15 - i) + k)"
  by (simp add: bytes_of_block_def bit_ucast_iff bit_drop_bit_eq)

lemma block_of_bytes_of_block [simp]: "block_of_bytes (bytes_of_block w) = w"
proof (rule bit_word_eqI)
  fix n assume "n < LENGTH(128)"
  then have n: "n < 128" by simp
  then have a: "15 - n div 8 < 16" "n mod 8 < 8" "16 - 1 - n div 8 = 15 - n div 8"
    "8 * (15 - (15 - n div 8)) + n mod 8 = n"
    by simp_all
  show "bit (block_of_bytes (bytes_of_block w)) n \<longleftrightarrow> bit w n"
    using n by (simp add: block_of_bytes_def bit_word_of_int_iff bit_bytes_to_long
        bit_bytes_of_block_nth a)
qed

lemma bytes_of_block_of_bytes:
  assumes "length bs = 16"
  shows "bytes_of_block (block_of_bytes bs) = bs"
proof (rule nth_equalityI)
  show "length (bytes_of_block (block_of_bytes bs)) = length bs" using assms by simp
  fix i assume "i < length (bytes_of_block (block_of_bytes bs))"
  then have i: "i < 16" by simp
  show "bytes_of_block (block_of_bytes bs) ! i = bs ! i"
  proof (rule bit_word_eqI)
    fix k assume "k < LENGTH(8)"
    then have k: "k < 8" by simp
    have a: "8 * (15 - i) + k < 128" "(8 * (15 - i) + k) div 8 = 15 - i" "15 - (15 - i) = i"
      using i k by simp_all
    show "bit (bytes_of_block (block_of_bytes bs) ! i) k \<longleftrightarrow> bit (bs ! i) k"
      using i k by (simp add: bit_bytes_of_block_nth block_of_bytes_def bit_word_of_int_iff
          bit_bytes_to_long assms a)
  qed
qed

lemma map2_xor_cancel:
  "length (a :: bytes) \<le> length b \<Longrightarrow> map2 (XOR) (map2 (XOR) a b) b = a"
proof (induction a arbitrary: b)
  case Nil
  then show ?case by simp
next
  case (Cons x xs)
  then show ?case by (cases b) (simp_all add: xor.assoc)
qed

lemma enc_block_length: "length (fst (enc_block E st p)) = 16"
  by (simp add: enc_block_def Let_def)

lemma dec_block_length: "length (fst (dec_block E D st c)) = 16"
  by (simp add: dec_block_def Let_def)

lemma dec_enc_block:
  assumes "\<forall>x. D (E x) = x" and "length p = 16"
  shows "dec_block E D st (fst (enc_block E st p)) = (p, snd (enc_block E st p))"
  using assms by (simp add: dec_block_def enc_block_def Let_def bytes_of_block_of_bytes xor.assoc
      xor.commute xor.left_commute)

lemma dec_enc_final:
  assumes "length p < 16"
  shows "dec_final E st (fst (enc_final E st p)) = (p, snd (enc_final E st p))"
  using assms by (simp add: dec_final_def enc_final_def Let_def map2_xor_cancel)

lemma ocb_encrypt_length: "length (fst (ocb_encrypt E st d)) = length d"
proof (induction E st d rule: ocb_encrypt.induct)
  case (1 E st d)
  show ?case
  proof (cases "16 \<le> length d")
    case True
    obtain c st1 where e: "enc_block E st (take 16 d) = (c, st1)"
      by (cases "enc_block E st (take 16 d)")
    from enc_block_length [of E st "take 16 d"] e have "length c = 16" by simp
    with 1 [OF True e [symmetric]] True e show ?thesis
      by (subst ocb_encrypt.simps) (auto split: prod.splits)
  next
    case False
    then show ?thesis
      by (subst ocb_encrypt.simps) (simp add: enc_final_def Let_def)
  qed
qed


lemma ocb_decrypt_length: "length (fst (ocb_decrypt E D st d)) = length d"
proof (induction E D st d rule: ocb_decrypt.induct)
  case (1 E D st d)
  show ?case
  proof (cases "16 \<le> length d")
    case True
    obtain c st1 where e: "dec_block E D st (take 16 d) = (c, st1)"
      by (cases "dec_block E D st (take 16 d)")
    from dec_block_length [of E D st "take 16 d"] e have "length c = 16" by simp
    with 1 [OF True e [symmetric]] True e show ?thesis
      by (subst ocb_decrypt.simps) (auto split: prod.splits)
  next
    case False
    then show ?thesis
      by (subst ocb_decrypt.simps) (simp add: dec_final_def Let_def)
  qed
qed

lemma ocb_encrypt_Nil [simp]: "ocb_encrypt E st [] = ([], st)"
  by (subst ocb_encrypt.simps) simp

lemma ocb_decrypt_Nil [simp]: "ocb_decrypt E D st [] = ([], st)"
  by (subst ocb_decrypt.simps) simp

lemma ocb_update_Nil [simp]: "ocb_update E st [] = st"
  by (subst ocb_update.simps) simp

lemma ocb_encrypt_append:
  "16 dvd length a \<Longrightarrow>
   ocb_encrypt E st (a @ b) =
     (fst (ocb_encrypt E st a) @ fst (ocb_encrypt E (snd (ocb_encrypt E st a)) b),
      snd (ocb_encrypt E (snd (ocb_encrypt E st a)) b))"
proof (induction E st a rule: ocb_encrypt.induct)
  case (1 E st a)
  show ?case
  proof (cases "a = []")
    case True
    then show ?thesis by simp
  next
    case False
    with 1(2) have l: "16 \<le> length a" by (simp add: dvd_imp_le)
    obtain c st1 where e: "enc_block E st (take 16 a) = (c, st1)"
      by (cases "enc_block E st (take 16 a)")
    from 1(2) l have "16 dvd length (drop 16 a)" by (simp add: dvd_diff_nat)
    from 1(1) [OF l e [symmetric] this]
    have IH: "ocb_encrypt E st1 (drop 16 a @ b) =
       (fst (ocb_encrypt E st1 (drop 16 a)) @ fst (ocb_encrypt E (snd (ocb_encrypt E st1 (drop 16 a))) b),
        snd (ocb_encrypt E (snd (ocb_encrypt E st1 (drop 16 a))) b))" .
    have lhs: "ocb_encrypt E st (a @ b) =
        (c @ fst (ocb_encrypt E st1 (drop 16 a @ b)), snd (ocb_encrypt E st1 (drop 16 a @ b)))"
      using l e by (subst ocb_encrypt.simps) (simp split: prod.splits)
    have rhs: "ocb_encrypt E st a =
        (c @ fst (ocb_encrypt E st1 (drop 16 a)), snd (ocb_encrypt E st1 (drop 16 a)))"
      using l e by (subst ocb_encrypt.simps) (simp split: prod.splits)
    show ?thesis by (simp add: lhs rhs IH)
  qed
qed

lemma ocb_decrypt_append:
  "16 dvd length a \<Longrightarrow>
   ocb_decrypt E D st (a @ b) =
     (fst (ocb_decrypt E D st a) @ fst (ocb_decrypt E D (snd (ocb_decrypt E D st a)) b),
      snd (ocb_decrypt E D (snd (ocb_decrypt E D st a)) b))"
proof (induction E D st a rule: ocb_decrypt.induct)
  case (1 E D st a)
  show ?case
  proof (cases "a = []")
    case True
    then show ?thesis by simp
  next
    case False
    with 1(2) have l: "16 \<le> length a" by (simp add: dvd_imp_le)
    obtain c st1 where e: "dec_block E D st (take 16 a) = (c, st1)"
      by (cases "dec_block E D st (take 16 a)")
    from 1(2) l have "16 dvd length (drop 16 a)" by (simp add: dvd_diff_nat)
    from 1(1) [OF l e [symmetric] this]
    have IH: "ocb_decrypt E D st1 (drop 16 a @ b) =
       (fst (ocb_decrypt E D st1 (drop 16 a)) @ fst (ocb_decrypt E D (snd (ocb_decrypt E D st1 (drop 16 a))) b),
        snd (ocb_decrypt E D (snd (ocb_decrypt E D st1 (drop 16 a))) b))" .
    have lhs: "ocb_decrypt E D st (a @ b) =
        (c @ fst (ocb_decrypt E D st1 (drop 16 a @ b)), snd (ocb_decrypt E D st1 (drop 16 a @ b)))"
      using l e by (subst ocb_decrypt.simps) (simp split: prod.splits)
    have rhs: "ocb_decrypt E D st a =
        (c @ fst (ocb_decrypt E D st1 (drop 16 a)), snd (ocb_decrypt E D st1 (drop 16 a)))"
      using l e by (subst ocb_decrypt.simps) (simp split: prod.splits)
    show ?thesis by (simp add: lhs rhs IH)
  qed
qed

lemma ocb_update_append:
  "16 dvd length a \<Longrightarrow> ocb_update E st (a @ b) = ocb_update E (ocb_update E st a) b"
proof (induction E st a rule: ocb_update.induct)
  case (1 E st a)
  show ?case
  proof (cases "a = []")
    case True
    then show ?thesis by simp
  next
    case False
    with 1(2) have l: "16 \<le> length a" by (simp add: dvd_imp_le)
    from 1(2) l have "16 dvd length (drop 16 a)" by (simp add: dvd_diff_nat)
    from 1(1) [OF l this]
    have IH: "ocb_update E (ad_block E st (take 16 a)) (drop 16 a @ b) =
       ocb_update E (ocb_update E (ad_block E st (take 16 a)) (drop 16 a)) b" .
    have lhs: "ocb_update E st (a @ b) = ocb_update E (ad_block E st (take 16 a)) (drop 16 a @ b)"
      using l by (subst ocb_update.simps) simp
    have rhs: "ocb_update E st a = ocb_update E (ad_block E st (take 16 a)) (drop 16 a)"
      using l by (subst ocb_update.simps) simp
    show ?thesis by (simp add: lhs rhs IH)
  qed
qed

lemma ocb_decrypt_encrypt:
  assumes "\<forall>x. D (E x) = x"
  shows "ocb_decrypt E D st (fst (ocb_encrypt E st p)) = (p, snd (ocb_encrypt E st p))"
proof (induction "length p" arbitrary: st p rule: less_induct)
  case less
  show ?case
  proof (cases "16 \<le> length p")
    case True
    define c where "c = fst (enc_block E st (take 16 p))"
    define st1 where "st1 = snd (enc_block E st (take 16 p))"
    have e: "enc_block E st (take 16 p) = (c, st1)" by (simp add: c_def st1_def)
    have lc: "length c = 16" by (simp add: c_def enc_block_length)
    have enc: "ocb_encrypt E st p =
        (c @ fst (ocb_encrypt E st1 (drop 16 p)), snd (ocb_encrypt E st1 (drop 16 p)))"
      using True e by (subst ocb_encrypt.simps) (simp split: prod.splits)
    have d: "dec_block E D st c = (take 16 p, st1)"
      using dec_enc_block [where D=D and E=E and p="take 16 p" and st=st] assms True
      by (simp add: c_def st1_def)
    have IH: "ocb_decrypt E D st1 (fst (ocb_encrypt E st1 (drop 16 p))) =
        (drop 16 p, snd (ocb_encrypt E st1 (drop 16 p)))"
      using True by (intro less) simp
    show ?thesis
      unfolding enc fst_conv snd_conv
      by (subst ocb_decrypt.simps) (simp add: lc d IH)
  next
    case False
    show ?thesis
    proof (cases "p = []")
      case True
      then show ?thesis by simp
    next
      case nonempty: False
      from False have l: "length p < 16" by simp
      have enc: "ocb_encrypt E st p = enc_final E st p"
        using False nonempty by (subst ocb_encrypt.simps) simp
      have lc: "length (fst (enc_final E st p)) = length p"
        using l by (simp add: enc_final_def Let_def)
      show ?thesis
        unfolding enc
        using l nonempty lc dec_enc_final [OF l, of E st]
        by (subst ocb_decrypt.simps) auto
    qed
  qed
qed

section \<open>A session over the raw engine\<close>

lemma slice_nat [simp]:
  "slice_to xs (int n) = take n xs"
  "slice_from xs (int n) = drop n xs"
  by (simp_all add: slice_to_def slice_from_def)

lemma aligned_int: "int n div block_size * block_size = int (n div 16 * 16)"
  by (simp add: block_size_def zdiv_int)

lemma aligned_nat [simp]:
  "nat (int n div block_size * block_size) = n div 16 * 16"
  "slice_from d (int n div block_size * block_size) = drop (n div 16 * 16) d"
  by (simp_all only: aligned_int nat_int slice_nat)

lemma filler_int:
  "n \<le> 16 \<Longrightarrow> min (block_size - int n) (int m) = int (min (16 - n) m)"
  "n \<le> 16 \<Longrightarrow> min (16 - int n) (int m) = int (min (16 - n) m)"
  by (auto simp add: block_size_def min_def)

lemma get_raw_buffer_id: "length x = n \<Longrightarrow> get_raw_buffer n x = x"
  by (simp add: get_raw_buffer_def)

lemma transcrypt_aligned_ok:
  assumes "\<And>st d. length (fst (F st d)) = length d" and "n \<le> length d"
  shows "transcrypt_aligned s d n (\<lambda>st data n. (0, F st (take n data))) =
           (Inr (fst (F (state s) (take n d))), s\<lparr>state := snd (F (state s) (take n d))\<rparr>)"
  using assms by (simp add: transcrypt_aligned_def get_raw_buffer_id case_prod_beta)

lemma transcrypt_blocks_ok:
  assumes "\<And>st d. length (fst (F st d)) = length d"
  shows "transcrypt_blocks s prefix d (\<lambda>st data n. (0, F st (take n data))) =
           (Inr (prefix @ fst (F (state s) (take (length d div 16 * 16) d))),
            s\<lparr>cache_P := drop (length d div 16 * 16) d,
              state := snd (F (state s) (take (length d div 16 * 16) d))\<rparr>)"
  by (simp add: transcrypt_blocks_def transcrypt_aligned_ok [where F=F, OF assms] Let_def)

lemma transcrypt_Some_nat:
  "length (cache_P s) \<le> 16 \<Longrightarrow>
   transcrypt s (Some d) f =
     (if 0 < length (cache_P s) then
        (let filler = min (16 - length (cache_P s)) (length d);
             s1 = s\<lparr>cache_P := cache_P s @ take filler d\<rparr>
         in if length (cache_P s1) < 16 then (Inr [], s1)
            else
              (case transcrypt_aligned s1 (cache_P s1) (length (cache_P s1)) f of
                 (Inl e, s2) \<Rightarrow> (Inl e, s2)
               | (Inr prefix, s2) \<Rightarrow>
                   transcrypt_blocks (s2\<lparr>cache_P := []\<rparr>) prefix (drop filler d) f))
      else transcrypt_blocks s [] d f)"
proof -
  assume le: "length (cache_P s) \<le> 16"
  then have fi: "min (block_size - int (length (cache_P s))) (int (length d)) =
      int (min (16 - length (cache_P s)) (length d))"
    by (rule filler_int(1))
  show ?thesis
    unfolding transcrypt_def option.case Let_def fi slice_nat
    using le by (auto simp add: block_size_def)
qed

lemma transcrypt_data_ok:
  assumes len: "\<And>st d. length (fst (F st d)) = length d"
    and app: "\<And>st a b. 16 dvd length a \<Longrightarrow>
        F st (a @ b) = (fst (F st a) @ fst (F (snd (F st a)) b), snd (F (snd (F st a)) b))"
    and nil: "\<And>st. F st [] = ([], st)"
    and c: "length (cache_P s) < 16"
  shows "transcrypt s (Some d) (\<lambda>st data n. (0, F st (take n data))) =
     (Inr (fst (F (state s) (take (length (cache_P s @ d) div 16 * 16) (cache_P s @ d)))),
      s\<lparr>cache_P := drop (length (cache_P s @ d) div 16 * 16) (cache_P s @ d),
        state := snd (F (state s) (take (length (cache_P s @ d) div 16 * 16) (cache_P s @ d)))\<rparr>)"
proof (cases "cache_P s = []")
  case True
  then show ?thesis
    by (simp add: transcrypt_def transcrypt_blocks_ok [where F=F, OF len])
next
  case False
  define n where "n = length (cache_P s)"
  have n: "0 < n" "n < 16" using False c by (simp_all add: n_def)
  show ?thesis
  proof (cases "n + length d < 16")
    case True
    then have "min (16 - n) (length d) = length d" using n by simp
    with True n show ?thesis
      using False c by (simp add: transcrypt_Some_nat n_def [symmetric] Let_def nil)
  next
    case False
    then have f: "min (16 - n) (length d) = 16 - n" using n by simp
    define cache' where "cache' = cache_P s @ take (16 - n) d"
    define d' where "d' = drop (16 - n) d"
    have lc: "length cache' = 16" using False n by (simp add: cache'_def n_def)
    have split: "cache_P s @ d = cache' @ d'" by (simp add: cache'_def d'_def)
    have "(16 + length d') div 16 = Suc (length d' div 16)" by simp
    then have k: "length (cache' @ d') div 16 * 16 = 16 + length d' div 16 * 16"
      using lc by simp
    have tk: "take (16 + length d' div 16 * 16) (cache' @ d') = cache' @ take (length d' div 16 * 16) d'"
      using lc by simp
    have dk: "drop (16 + length d' div 16 * 16) (cache' @ d') = drop (length d' div 16 * 16) d'"
      using lc by simp
    have a: "transcrypt_aligned (s\<lparr>cache_P := cache'\<rparr>) cache' 16 (\<lambda>st data n. (0, F st (take n data)))
        = (Inr (fst (F (state s) cache')), s\<lparr>cache_P := cache', state := snd (F (state s) cache')\<rparr>)"
      using transcrypt_aligned_ok [where F=F and s="s\<lparr>cache_P := cache'\<rparr>" and d=cache' and n=16] len lc
      by simp
    have lhs: "transcrypt s (Some d) (\<lambda>st data n. (0, F st (take n data))) =
       (Inr (fst (F (state s) cache') @ fst (F (snd (F (state s) cache')) (take (length d' div 16 * 16) d'))),
        s\<lparr>cache_P := drop (length d' div 16 * 16) d',
          state := snd (F (snd (F (state s) cache')) (take (length d' div 16 * 16) d'))\<rparr>)"
      using \<open>cache_P s \<noteq> []\<close> c lc n False
      by (simp add: transcrypt_Some_nat n_def [symmetric] f Let_def
          cache'_def [symmetric] d'_def [symmetric] a transcrypt_blocks_ok [where F=F, OF len])
    show ?thesis
      unfolding lhs split k tk dk
      using app [of cache' "state s" "take (length d' div 16 * 16) d'"] lc by simp
  qed
qed

lemma transcrypt_final_ok:
  assumes len: "\<And>st d. length (fst (F st d)) = length d"
  shows "transcrypt s None (\<lambda>st data n. (0, F st (take n data))) =
     (Inr (fst (F (state s) (cache_P s))),
      s\<lparr>cache_P := [], state := snd (F (state s) (cache_P s))\<rparr>)"
  by (simp add: transcrypt_def transcrypt_aligned_ok [where F=F, OF len])

lemma update_internal_ok:
  assumes "OCB_update lib = (\<lambda>st data n. (0, G st (take n data)))"
  shows "update_internal lib s d n = (Inr (), s\<lparr>state := G (state s) (take n d)\<rparr>)"
  by (simp add: update_internal_def assms)

lemma update_aligned_ok:
  assumes "OCB_update lib = (\<lambda>st data n. (0, G st (take n data)))"
  shows "update_aligned lib s d =
           (Inr (), s\<lparr>cache_A := drop (length d div 16 * 16) d,
                      state := G (state s) (take (length d div 16 * 16) d)\<rparr>)"
  by (simp add: update_aligned_def update_internal_ok [OF assms] Let_def)

lemma update_nat:
  assumes le: "length (cache_A s) \<le> 16"
  shows "update lib s d =
     (if Update \<notin> set (next' s) then (Inl InvalidSequence, s)
      else if 0 < length (cache_A s) then
        (let filler = min (16 - length (cache_A s)) (length d);
             s2 = s\<lparr>next' := [Encrypt, Decrypt, Digest, Verify, Update],
                    cache_A := cache_A s @ take filler d\<rparr>
         in if length (cache_A s2) < 16 then (Inr (), s2)
            else
              (case update_aligned lib
                      (s\<lparr>cache_A := [], next' := [Encrypt, Decrypt, Digest, Verify, Update]\<rparr>)
                      (cache_A s2) of
                 (Inl e, s4) \<Rightarrow> (Inl e, s4)
               | (Inr _, s4) \<Rightarrow> update_aligned lib s4 (drop filler d)))
      else update_aligned lib (s\<lparr>next' := [Encrypt, Decrypt, Digest, Verify, Update]\<rparr>) d)"
proof -
  from le have fi: "min (block_size - int (length (cache_A s))) (int (length d)) =
      int (min (16 - length (cache_A s)) (length d))"
    by (rule filler_int(1))
  show ?thesis
    apply (subst update_unfold)
    unfolding Let_def fi slice_nat
    using le by (auto simp add: block_size_def)
qed

lemma update_ok:
  assumes lib: "OCB_update lib = (\<lambda>st data n. (0, G st (take n data)))"
    and app: "\<And>st a b. 16 dvd length a \<Longrightarrow> G st (a @ b) = G (G st a) b"
    and nil: "\<And>st. G st [] = st"
    and u: "Update \<in> set (next' s)"
    and c: "length (cache_A s) < 16"
  shows "update lib s d =
     (Inr (),
      s\<lparr>next' := [Encrypt, Decrypt, Digest, Verify, Update],
        cache_A := drop (length (cache_A s @ d) div 16 * 16) (cache_A s @ d),
        state := G (state s) (take (length (cache_A s @ d) div 16 * 16) (cache_A s @ d))\<rparr>)"
proof (cases "cache_A s = []")
  case True
  with u show ?thesis
    by (simp add: update_empty_cache update_aligned_ok [OF lib])
next
  case False
  define n where "n = length (cache_A s)"
  have n: "0 < n" "n < 16" using False c by (simp_all add: n_def)
  have le: "length (cache_A s) \<le> 16" using c by simp
  show ?thesis
  proof (cases "n + length d < 16")
    case True
    then have "min (16 - n) (length d) = length d" using n by simp
    with True n u show ?thesis
      using False c by (simp add: update_nat [OF le] n_def [symmetric] Let_def nil)
  next
    case False
    then have f: "min (16 - n) (length d) = 16 - n" using n by simp
    define cache' where "cache' = cache_A s @ take (16 - n) d"
    define d' where "d' = drop (16 - n) d"
    have lc: "length cache' = 16" using False n by (simp add: cache'_def n_def)
    have split: "cache_A s @ d = cache' @ d'" by (simp add: cache'_def d'_def)
    have "(16 + length d') div 16 = Suc (length d' div 16)" by simp
    then have k: "length (cache' @ d') div 16 * 16 = 16 + length d' div 16 * 16"
      using lc by simp
    have tk: "take (16 + length d' div 16 * 16) (cache' @ d') = cache' @ take (length d' div 16 * 16) d'"
      using lc by simp
    have dk: "drop (16 + length d' div 16 * 16) (cache' @ d') = drop (length d' div 16 * 16) d'"
      using lc by simp
    have lhs: "update lib s d =
       (Inr (),
        s\<lparr>next' := [Encrypt, Decrypt, Digest, Verify, Update],
          cache_A := drop (length d' div 16 * 16) d',
          state := G (G (state s) cache') (take (length d' div 16 * 16) d')\<rparr>)"
      using \<open>cache_A s \<noteq> []\<close> c lc n False u
      by (simp add: update_nat [OF le] n_def [symmetric] f Let_def
          cache'_def [symmetric] d'_def [symmetric] update_aligned_ok [OF lib])
    show ?thesis
      unfolding lhs split k tk dk
      using app [of cache' "state s" "take (length d' div 16 * 16) d'"] lc by simp
  qed
qed

lemma aligned_split:
  fixes Y X :: "'a list"
  defines "k \<equiv> length Y div 16 * 16"
  shows "length (Y @ X) div 16 * 16 = k + length (drop k Y @ X) div 16 * 16"
    and "take (length (Y @ X) div 16 * 16) (Y @ X) =
           take k Y @ take (length (drop k Y @ X) div 16 * 16) (drop k Y @ X)"
    and "drop (length (Y @ X) div 16 * 16) (Y @ X) =
           drop (length (drop k Y @ X) div 16 * 16) (drop k Y @ X)"
proof -
  have kl: "k \<le> length Y" by (simp add: k_def)
  obtain q where q: "k = q * 16" by (simp add: k_def)
  have e: "length (Y @ X) = q * 16 + length (drop k Y @ X)"
    using kl by (simp add: q [symmetric])
  show a: "length (Y @ X) div 16 * 16 = k + length (drop k Y @ X) div 16 * 16"
    unfolding e by (simp add: q add_mult_distrib)
  have yx: "Y @ X = take k Y @ (drop k Y @ X)" by simp
  have lt: "length (take k Y) = k" using kl by simp
  show "take (length (Y @ X) div 16 * 16) (Y @ X) =
           take k Y @ take (length (drop k Y @ X) div 16 * 16) (drop k Y @ X)"
    unfolding a by (subst yx) (simp only: take_append lt, simp)
  show "drop (length (Y @ X) div 16 * 16) (Y @ X) =
           drop (length (drop k Y @ X) div 16 * 16) (drop k Y @ X)"
    unfolding a by (subst yx) (simp only: drop_append lt, simp)
qed

lemma drop_aligned_length [simp]: "length (drop (length Y div 16 * 16) Y) < 16"
  by (simp add: minus_div_mult_eq_mod)

lemma aligned_take_dvd [simp]: "16 dvd length (take (length Y div 16 * 16) Y)"
proof -
  have "length (take (length Y div 16 * 16) Y) = length Y div 16 * 16"
    by simp
  then show ?thesis by simp
qed

lemma aligned_small [simp]: "length Y < 16 \<Longrightarrow> length Y div 16 * 16 = 0"
  by simp

lemma update_chunks_ok:
  assumes lib: "OCB_update lib = (\<lambda>st data n. (0, G st (take n data)))"
    and app: "\<And>st a b. 16 dvd length a \<Longrightarrow> G st (a @ b) = G (G st a) b"
    and nil: "\<And>st. G st [] = st"
  shows "Update \<in> set (next' s) \<Longrightarrow> length (cache_A s) < 16 \<Longrightarrow>
    update_chunks lib s as =
     (Inr (),
      if as = [] then s
      else s\<lparr>next' := [Encrypt, Decrypt, Digest, Verify, Update],
             cache_A := drop (length (cache_A s @ concat as) div 16 * 16) (cache_A s @ concat as),
             state := G (state s)
                        (take (length (cache_A s @ concat as) div 16 * 16) (cache_A s @ concat as))\<rparr>)"
proof (induction as arbitrary: s)
  case Nil
  then show ?case by simp
next
  case (Cons a as)
  define Y where "Y = cache_A s @ a"
  define k where "k = length Y div 16 * 16"
  define s1 where "s1 = s\<lparr>next' := [Encrypt, Decrypt, Digest, Verify, Update],
        cache_A := drop k Y, state := G (state s) (take k Y)\<rparr>"
  have u1: "update lib s a = (Inr (), s1)"
    using update_ok [where G=G, OF lib app nil Cons.prems] by (simp add: s1_def k_def Y_def)
  have p1: "Update \<in> set (next' s1)" "length (cache_A s1) < 16"
    by (simp_all add: s1_def k_def)
  show ?case
  proof (cases "as = []")
    case True
    then show ?thesis by (simp add: u1 s1_def k_def Y_def)
  next
    case False
    have dv: "16 dvd length (take k Y)" unfolding k_def by (rule aligned_take_dvd)
    have "update_chunks lib s (a # as) = update_chunks lib s1 as" by (simp add: u1)
    also have "\<dots> = (Inr (),
        s1\<lparr>next' := [Encrypt, Decrypt, Digest, Verify, Update],
           cache_A := drop (length (cache_A s1 @ concat as) div 16 * 16) (cache_A s1 @ concat as),
           state := G (state s1)
                      (take (length (cache_A s1 @ concat as) div 16 * 16) (cache_A s1 @ concat as))\<rparr>)"
      using Cons.IH [OF p1] False by simp
    also have "\<dots> = (Inr (),
        s\<lparr>next' := [Encrypt, Decrypt, Digest, Verify, Update],
           cache_A := drop (length (Y @ concat as) div 16 * 16) (Y @ concat as),
           state := G (state s) (take (length (Y @ concat as) div 16 * 16) (Y @ concat as))\<rparr>)"
      unfolding aligned_split(2,3) [of Y "concat as"] k_def [symmetric]
      by (simp add: s1_def app [OF dv])
    finally show ?thesis using False by (simp add: Y_def)
  qed
qed

lemma encrypt_data_ok:
  assumes lib: "OCB_encrypt lib = (\<lambda>st data n. (0, F st (take n data)))"
    and len: "\<And>st d. length (fst (F st d)) = length d"
    and app: "\<And>st a b. 16 dvd length a \<Longrightarrow>
        F st (a @ b) = (fst (F st a) @ fst (F (snd (F st a)) b), snd (F (snd (F st a)) b))"
    and nil: "\<And>st. F st [] = ([], st)"
    and e: "Encrypt \<in> set (next' s)"
    and c: "length (cache_P s) < 16"
  shows "encrypt lib s (Some d) =
     (Inr (fst (F (state s) (take (length (cache_P s @ d) div 16 * 16) (cache_P s @ d)))),
      s\<lparr>next' := [Encrypt, Digest],
        cache_P := drop (length (cache_P s @ d) div 16 * 16) (cache_P s @ d),
        state := snd (F (state s) (take (length (cache_P s @ d) div 16 * 16) (cache_P s @ d)))\<rparr>)"
  using e transcrypt_data_ok [where F=F and s="s\<lparr>next' := [Encrypt, Digest]\<rparr>" and d=d, OF len app nil] c
  by (simp add: encrypt_def lib)

lemma encrypt_final_ok:
  assumes lib: "OCB_encrypt lib = (\<lambda>st data n. (0, F st (take n data)))"
    and len: "\<And>st d. length (fst (F st d)) = length d"
    and e: "Encrypt \<in> set (next' s)"
  shows "encrypt lib s None =
     (Inr (fst (F (state s) (cache_P s))),
      s\<lparr>next' := [Digest], cache_P := [], state := snd (F (state s) (cache_P s))\<rparr>)"
  using e transcrypt_final_ok [where F=F and s="s\<lparr>next' := [Digest]\<rparr>", OF len]
  by (simp add: encrypt_def lib)

lemma decrypt_data_ok:
  assumes lib: "OCB_decrypt lib = (\<lambda>st data n. (0, F st (take n data)))"
    and len: "\<And>st d. length (fst (F st d)) = length d"
    and app: "\<And>st a b. 16 dvd length a \<Longrightarrow>
        F st (a @ b) = (fst (F st a) @ fst (F (snd (F st a)) b), snd (F (snd (F st a)) b))"
    and nil: "\<And>st. F st [] = ([], st)"
    and e: "Decrypt \<in> set (next' s)"
    and c: "length (cache_P s) < 16"
  shows "decrypt lib s (Some d) =
     (Inr (fst (F (state s) (take (length (cache_P s @ d) div 16 * 16) (cache_P s @ d)))),
      s\<lparr>next' := [Decrypt, Digest],
        cache_P := drop (length (cache_P s @ d) div 16 * 16) (cache_P s @ d),
        state := snd (F (state s) (take (length (cache_P s @ d) div 16 * 16) (cache_P s @ d)))\<rparr>)"
  using e transcrypt_data_ok [where F=F and s="s\<lparr>next' := [Decrypt, Digest]\<rparr>" and d=d, OF len app nil] c
  by (simp add: decrypt_def lib)

lemma decrypt_final_ok:
  assumes lib: "OCB_decrypt lib = (\<lambda>st data n. (0, F st (take n data)))"
    and len: "\<And>st d. length (fst (F st d)) = length d"
    and e: "Decrypt \<in> set (next' s)"
  shows "decrypt lib s None =
     (Inr (fst (F (state s) (cache_P s))),
      s\<lparr>next' := [Verify], cache_P := [], state := snd (F (state s) (cache_P s))\<rparr>)"
  using e transcrypt_final_ok [where F=F and s="s\<lparr>next' := [Verify]\<rparr>", OF len]
  by (simp add: decrypt_def lib)

lemma encrypt_chunks_ok:
  assumes lib: "OCB_encrypt lib = (\<lambda>st data n. (0, F st (take n data)))"
    and len: "\<And>st d. length (fst (F st d)) = length d"
    and app: "\<And>st a b. 16 dvd length a \<Longrightarrow>
        F st (a @ b) = (fst (F st a) @ fst (F (snd (F st a)) b), snd (F (snd (F st a)) b))"
    and nil: "\<And>st. F st [] = ([], st)"
  shows "Encrypt \<in> set (next' s) \<Longrightarrow> length (cache_P s) < 16 \<Longrightarrow>
    \<exists>outs. encrypt_chunks lib s ps =
       (Inr outs,
        s\<lparr>next' := [Digest], cache_P := [],
          state := snd (F (state s) (cache_P s @ concat ps))\<rparr>) \<and>
      concat outs = fst (F (state s) (cache_P s @ concat ps))"
proof (induction ps arbitrary: s)
  case Nil
  then show ?case
    by (simp add: encrypt_final_ok [where F=F, OF lib len])
next
  case (Cons p ps)
  define Y where "Y = cache_P s @ p"
  define k where "k = length Y div 16 * 16"
  define s1 where "s1 = s\<lparr>next' := [Encrypt, Digest],
        cache_P := drop k Y, state := snd (F (state s) (take k Y))\<rparr>"
  have e1: "encrypt lib s (Some p) = (Inr (fst (F (state s) (take k Y))), s1)"
    using encrypt_data_ok [where F=F, OF lib len app nil Cons.prems]
    by (simp add: s1_def k_def Y_def)
  have p1: "Encrypt \<in> set (next' s1)" "length (cache_P s1) < 16"
    by (simp_all add: s1_def k_def)
  from Cons.IH [OF p1] obtain outs where
    o: "encrypt_chunks lib s1 ps =
       (Inr outs,
        s1\<lparr>next' := [Digest], cache_P := [],
          state := snd (F (state s1) (cache_P s1 @ concat ps))\<rparr>)"
    and c: "concat outs = fst (F (state s1) (cache_P s1 @ concat ps))"
    by blast
  have dv: "16 dvd length (take k Y)" unfolding k_def by (rule aligned_take_dvd)
  have yx: "cache_P s @ concat (p # ps) = take k Y @ (drop k Y @ concat ps)"
    by (simp only: append_assoc [symmetric] append_take_drop_id) (simp add: Y_def)
  have "encrypt_chunks lib s (p # ps) =
       (Inr (fst (F (state s) (take k Y)) # outs),
        s1\<lparr>next' := [Digest], cache_P := [],
          state := snd (F (state s1) (cache_P s1 @ concat ps))\<rparr>)"
    by (simp add: e1 o)
  moreover have "s1\<lparr>next' := [Digest], cache_P := [],
          state := snd (F (state s1) (cache_P s1 @ concat ps))\<rparr> =
        s\<lparr>next' := [Digest], cache_P := [],
          state := snd (F (state s) (cache_P s @ concat (p # ps)))\<rparr>"
    unfolding yx by (simp add: s1_def app [OF dv])
  moreover have "concat (fst (F (state s) (take k Y)) # outs) =
        fst (F (state s) (cache_P s @ concat (p # ps)))"
    unfolding yx by (simp add: c s1_def app [OF dv])
  ultimately show ?case by simp
qed

lemma ocb_lib_sel [simp]:
  "factory_block_size (ocb_lib E D h) = 16"
  "ecb_encrypt_block (ocb_lib E D h) = E"
  "OCB_start_operation (ocb_lib E D h) = (\<lambda>offset_0 n. (0, ocb_start (take n offset_0)))"
  "OCB_encrypt (ocb_lib E D h) = (\<lambda>st data n. (0, ocb_encrypt E st (take n data)))"
  "OCB_decrypt (ocb_lib E D h) = (\<lambda>st data n. (0, ocb_decrypt E D st (take n data)))"
  "OCB_update (ocb_lib E D h) = (\<lambda>st data n. (0, ocb_update E st (take n data)))"
  "OCB_digest (ocb_lib E D h) = (\<lambda>st n. (0, take n (bytes_of_block (ocb_final E st)), st))"
  "BLAKE2s_mac (ocb_lib E D h) = h"
  by (simp_all add: ocb_lib_def)

lemma compute_mac_tag_ok:
  assumes "mac_tag s = None"
  shows "compute_mac_tag (ocb_lib E D h) s =
     (Inr (),
      s\<lparr>mac_tag := Some (slice_to (bytes_of_block
                            (ocb_final E (ocb_update E (state s) (cache_A s)))) (mac_len s)),
        cache_A := [],
        state := ocb_update E (state s) (cache_A s)\<rparr>)"
proof (cases "cache_A s = []")
  case True
  then have "s\<lparr>cache_A := []\<rparr> = s" by (cases s) simp
  with True assms show ?thesis
    by (simp add: compute_mac_tag_def block_size_def get_raw_buffer_id)
next
  case False
  with assms show ?thesis
    by (simp add: compute_mac_tag_def update_internal_def block_size_def get_raw_buffer_id)
qed


lemma digest_ok:
  assumes "Digest \<in> set (next' s)" and "cache_P s = []" and "mac_tag s = None"
  shows "digest (ocb_lib E D h) s =
     (Inr (Some (slice_to (bytes_of_block
                    (ocb_final E (ocb_update E (state s) (cache_A s)))) (mac_len s))),
      s\<lparr>mac_tag := Some (slice_to (bytes_of_block
                            (ocb_final E (ocb_update E (state s) (cache_A s)))) (mac_len s)),
        cache_A := [],
        next' := [Digest],
        state := ocb_update E (state s) (cache_A s)\<rparr>)"
  using assms by (simp add: digest_def compute_mac_tag_ok)

lemma verify_ok:
  assumes "Verify \<in> set (next' s)" and "cache_P s = []" and "mac_tag s = None"
  shows "verify (ocb_lib E D h) secret s tag =
     ((if h secret (slice_to (bytes_of_block
                      (ocb_final E (ocb_update E (state s) (cache_A s)))) (mac_len s))
            \<noteq> h secret tag
       then Inl MacMismatch else Inr ()),
      s\<lparr>mac_tag := Some (slice_to (bytes_of_block
                            (ocb_final E (ocb_update E (state s) (cache_A s)))) (mac_len s)),
        cache_A := [],
        next' := [Verify],
        state := ocb_update E (state s) (cache_A s)\<rparr>)"
  using assms by (simp add: verify_def compute_mac_tag_ok)

lemma one_shot_streamed: "one_shot lib s A P = streamed lib s [A] [P]"
  by (simp add: one_shot_def streamed_def encrypt_and_digest_def
      split: prod.splits sum.splits)

lemma streamed_ok:
  "streamed (ocb_lib E D h) (new_session t r) as ps =
     (Inr (fst (ocb_seal E r (concat as) (concat ps)),
           Some (slice_to (bytes_of_block
                   (ocb_final E (snd (ocb_seal E r (concat as) (concat ps))))) t)),
      \<lparr>mac_len = t,
       mac_tag = Some (slice_to (bytes_of_block
                   (ocb_final E (snd (ocb_seal E r (concat as) (concat ps))))) t),
       cache_A = [], cache_P = [], next' = [Digest],
       state = snd (ocb_seal E r (concat as) (concat ps))\<rparr>)"
proof -
  define lib where "lib = ocb_lib E D h"
  define X where "X = concat as"
  define K where "K = length X div 16 * 16"
  define s1 where "s1 = (if as = [] then new_session t r
     else (new_session t r)\<lparr>next' := [Encrypt, Decrypt, Digest, Verify, Update],
             cache_A := drop K X, state := ocb_update E r (take K X)\<rparr>)"
  have u: "update_chunks lib (new_session t r) as = (Inr (), s1)"
    using update_chunks_ok [where G="ocb_update E" and lib=lib and s="new_session t r" and as=as]
    by (simp add: lib_def ocb_update_append s1_def K_def X_def new_session_def)
  have s1: "Encrypt \<in> set (next' s1)" "length (cache_P s1) < 16" "cache_P s1 = []"
    "mac_tag s1 = None" "mac_len s1 = t" "cache_A s1 = drop K X"
    "state s1 = ocb_update E r (take K X)"
    by (auto simp add: s1_def new_session_def K_def X_def)
  from encrypt_chunks_ok [where F="ocb_encrypt E" and lib=lib and s=s1 and ps=ps]
  obtain outs where
    o: "encrypt_chunks lib s1 ps =
       (Inr outs,
        s1\<lparr>next' := [Digest], cache_P := [],
          state := snd (ocb_encrypt E (state s1) (cache_P s1 @ concat ps))\<rparr>)"
    and c: "concat outs = fst (ocb_encrypt E (state s1) (cache_P s1 @ concat ps))"
    using s1(1,2) by (auto simp add: lib_def ocb_encrypt_length ocb_encrypt_append)
  define s2 where "s2 = s1\<lparr>next' := [Digest], cache_P := [],
          state := snd (ocb_encrypt E (state s1) (concat ps))\<rparr>"
  have s2: "Digest \<in> set (next' s2)" "cache_P s2 = []" "mac_tag s2 = None"
    by (simp_all add: s2_def s1)
  have "streamed lib (new_session t r) as ps =
     (case digest lib s2 of
        (Inl e, s3) \<Rightarrow> (Inl e, s3)
      | (Inr tg, s3) \<Rightarrow> (Inr (concat outs, tg), s3))"
    by (simp add: streamed_def u o s2_def s1(3))
  also have "\<dots> = (Inr (fst (ocb_seal E r X (concat ps)),
           Some (slice_to (bytes_of_block
                   (ocb_final E (snd (ocb_seal E r X (concat ps))))) t)),
      \<lparr>mac_len = t,
       mac_tag = Some (slice_to (bytes_of_block
                   (ocb_final E (snd (ocb_seal E r X (concat ps))))) t),
       cache_A = [], cache_P = [], next' = [Digest],
       state = snd (ocb_seal E r X (concat ps))\<rparr>)"
    unfolding lib_def digest_ok [OF s2]
    by (simp add: c s1 s2_def ocb_seal_def K_def Let_def)
  finally show ?thesis by (simp add: lib_def X_def)
qed


lemma one_shot_ok:
  "one_shot (ocb_lib E D h) (new_session t r) A P =
     (Inr (fst (ocb_seal E r A P),
           Some (slice_to (bytes_of_block (ocb_final E (snd (ocb_seal E r A P)))) t)),
      \<lparr>mac_len = t,
       mac_tag = Some (slice_to (bytes_of_block (ocb_final E (snd (ocb_seal E r A P)))) t),
       cache_A = [], cache_P = [], next' = [Digest],
       state = snd (ocb_seal E r A P)\<rparr>)"
  by (simp add: one_shot_streamed streamed_ok)

lemma one_shot_open_ok:
  assumes inv: "\<forall>x. D (E x) = x"
  shows "fst (one_shot_open (ocb_lib E D h) secret (new_session t r) A
           (fst (ocb_seal E r A P))
           (slice_to (bytes_of_block (ocb_final E (snd (ocb_seal E r A P)))) t)) = Inr P"
proof -
  define lib where "lib = ocb_lib E D h"
  define K where "K = length A div 16 * 16"
  define r1 where "r1 = ocb_update E r (take K A)"
  define C where "C = fst (ocb_encrypt E r1 P)"
  define r2 where "r2 = snd (ocb_encrypt E r1 P)"
  define k where "k = length C div 16 * 16"
  define s1 where "s1 = (new_session t r)\<lparr>next' := [Encrypt, Decrypt, Digest, Verify, Update],
             cache_A := drop K A, state := r1\<rparr>"
  have seal: "ocb_seal E r A P = (C, ocb_update E r2 (drop K A))"
    by (simp add: ocb_seal_def K_def r1_def C_def r2_def Let_def)
  have dec: "ocb_decrypt E D r1 C = (P, r2)"
    unfolding C_def r2_def by (rule ocb_decrypt_encrypt [where D=D and E=E, OF inv])
  have u: "update lib (new_session t r) A = (Inr (), s1)"
    using update_ok [where G="ocb_update E" and lib=lib and s="new_session t r" and d=A]
    by (simp add: lib_def ocb_update_append s1_def K_def r1_def new_session_def)
  define s2 where "s2 = s1\<lparr>next' := [Decrypt, Digest], cache_P := drop k C,
      state := snd (ocb_decrypt E D r1 (take k C))\<rparr>"
  have d1: "decrypt lib s1 (Some C) = (Inr (fst (ocb_decrypt E D r1 (take k C))), s2)"
    using decrypt_data_ok [where F="ocb_decrypt E D" and lib=lib and s=s1 and d=C]
    by (simp add: lib_def ocb_decrypt_length ocb_decrypt_append s1_def s2_def k_def new_session_def)
  define s3 where "s3 = s2\<lparr>next' := [Verify], cache_P := [],
      state := snd (ocb_decrypt E D (state s2) (cache_P s2))\<rparr>"
  have d2: "decrypt lib s2 None = (Inr (fst (ocb_decrypt E D (state s2) (cache_P s2))), s3)"
    using decrypt_final_ok [where F="ocb_decrypt E D" and lib=lib and s=s2]
    by (simp add: lib_def ocb_decrypt_length s2_def s3_def)
  have dv: "16 dvd length (take k C)" unfolding k_def by (rule aligned_take_dvd)
  have whole: "(fst (ocb_decrypt E D r1 (take k C)) @
        fst (ocb_decrypt E D (snd (ocb_decrypt E D r1 (take k C))) (drop k C)),
      snd (ocb_decrypt E D (snd (ocb_decrypt E D r1 (take k C))) (drop k C))) = (P, r2)"
  proof -
    have "ocb_decrypt E D r1 (take k C @ drop k C) = (P, r2)" using dec by simp
    then show ?thesis by (simp only: ocb_decrypt_append [OF dv])
  qed
  have parts: "fst (ocb_decrypt E D r1 (take k C)) @ fst (ocb_decrypt E D (state s2) (cache_P s2)) = P"
    "snd (ocb_decrypt E D (state s2) (cache_P s2)) = r2"
    using whole by (simp_all add: s2_def)
  have r2': "snd (ocb_decrypt E D (snd (ocb_decrypt E D r1 (take k C))) (drop k C)) = r2"
    using whole by simp
  have s3: "Verify \<in> set (next' s3)" "cache_P s3 = []" "mac_tag s3 = None"
    "state s3 = r2" "cache_A s3 = drop K A" "mac_len s3 = t"
    by (simp_all add: s3_def s2_def s1_def new_session_def r2')
  define T where "T = slice_to (bytes_of_block (ocb_final E (ocb_update E r2 (drop K A)))) t"
  have v: "fst (verify lib secret s3 T) = Inr ()"
    unfolding lib_def verify_ok [OF s3(1,2,3)] by (simp add: s3(4,5,6) T_def)
  obtain y s4 where vv: "verify lib secret s3 T = (y, s4)"
    by (cases "verify lib secret s3 T")
  with v have y: "y = Inr ()" by simp
  show ?thesis
    unfolding seal fst_conv snd_conv lib_def [symmetric] T_def [symmetric]
    by (simp add: one_shot_open_def decrypt_and_verify_def u d1 d2 parts vv y)
qed

text \<open>
  C7: over the engine of the specification, a new session fed the associated data and the
  plaintext in any pieces returns what the one-shot session returns for the concatenated
  data, ciphertext and tag, and it does return them.
\<close>

theorem streaming_equivalence:
  "streamed (ocb_lib E D h) (new_session t r) as ps =
     one_shot (ocb_lib E D h) (new_session t r) (concat as) (concat ps) \<and>
   (\<exists>c tag. fst (streamed (ocb_lib E D h) (new_session t r) as ps) = Inr (c, Some tag))"
  by (simp add: one_shot_streamed streamed_ok)

theorem streaming_equivalence_witness:
  "fst (streamed example_lib (new_session 16 (ocb_start (replicate 16 0)))
          [[9], [9, 8]] [replicate 10 1, replicate 10 2])
     = Inr ([2, 34, 79, 152, 151, 245, 51, 17, 2, 34, 72, 157, 136, 246, 52, 18, 4, 211, 148, 99],
            Some [15, 66, 141, 211, 213, 169, 181, 161, 10, 75, 151, 83, 84, 170, 170, 162]) \<and>
   fst (one_shot example_lib (new_session 16 (ocb_start (replicate 16 0)))
          (concat [[9], [9, 8]]) (concat [replicate 10 1, replicate 10 2]))
     = Inr ([2, 34, 79, 152, 151, 245, 51, 17, 2, 34, 72, 157, 136, 246, 52, 18, 4, 211, 148, 99],
            Some [15, 66, 141, 211, 213, 169, 181, 161, 10, 75, 151, 83, 84, 170, 170, 162])"
proof -
  have v: "fst (streamed example_lib (new_session 16 (ocb_start (replicate 16 0)))
          [[9], [9, 8]] [replicate 10 1, replicate 10 2])
     = Inr ([2, 34, 79, 152, 151, 245, 51, 17, 2, 34, 72, 157, 136, 246, 52, 18, 4, 211, 148, 99],
            Some [15, 66, 141, 211, 213, 169, 181, 161, 10, 75, 151, 83, 84, 170, 170, 162])"
    by code_simp
  from streaming_equivalence [where E=example_E and D=example_D and h="\<lambda>key data. key @ data"
      and t=16 and r="ocb_start (replicate 16 0)" and as="[[9], [9, 8]]"
      and ps="[replicate 10 1, replicate 10 2]"] v
  show ?thesis by (simp add: example_lib_def)
qed

text \<open>
  C4: over the engine of the specification with a block cipher that its inverse undoes, for
  a nonce of 1 to 15 bytes and a tag length of 8 to 16, the constructor succeeds, the
  sending session returns a ciphertext and a tag, and the receiving session, given both,
  returns the plaintext.
\<close>

theorem encrypt_decrypt_round_trip:
  assumes "\<forall>x. D (E x) = x" and "1 \<le> length N" and "length N \<le> 15" and "8 \<le> t" and "t \<le> 16"
  shows "\<exists>s0 C T.
           OcbMode_init (ocb_lib E D h) N t = Inr s0 \<and>
           fst (one_shot (ocb_lib E D h) s0 A P) = Inr (C, Some T) \<and>
           fst (one_shot_open (ocb_lib E D h) secret s0 A C T) = Inr P"
proof -
  define r where "r = ocb_start (take (length (compute_offset_0 E t N)) (compute_offset_0 E t N))"
  have i: "OcbMode_init (ocb_lib E D h) N t = Inr (new_session t r)"
    using assms(2-5) by (simp add: OcbMode_init_def r_def Let_def)
  show ?thesis
    unfolding i
    using one_shot_open_ok [where D=D and E=E and h=h and secret=secret and t=t and r=r
        and A=A and P=P, OF assms(1)]
    by (simp add: one_shot_ok)
qed

theorem encrypt_decrypt_round_trip_witness:
  "(\<forall>x. example_D (example_E x) = x) \<and>
   1 \<le> length [1, 2, 3 :: byte] \<and> length [1, 2, 3 :: byte] \<le> 15 \<and>
   (8 :: int) \<le> 16 \<and> (16 :: int) \<le> 16 \<and>
   (\<exists>s0 C T.
      OcbMode_init example_lib [1, 2, 3] 16 = Inr s0 \<and>
      fst (one_shot example_lib s0 [9, 9, 8] (replicate 10 1 @ replicate 10 2)) = Inr (C, Some T) \<and>
      fst (one_shot_open example_lib [7] s0 [9, 9, 8] C T) = Inr (replicate 10 1 @ replicate 10 2)) \<and>
   fst (one_shot example_lib example_session [9, 9, 8] (replicate 10 1 @ replicate 10 2))
     = Inr ([0, 46, 187, 168, 159, 109, 127, 113, 6, 229, 201, 154, 187, 182, 244, 18, 15, 213, 195, 47],
            Some [6, 88, 164, 63, 234, 224, 70, 62, 243, 105, 216, 145, 157, 243, 11, 35]) \<and>
   fst (one_shot_open example_lib [7] example_session [9, 9, 8]
          [0, 46, 187, 168, 159, 109, 127, 113, 6, 229, 201, 154, 187, 182, 244, 18, 15, 213, 195, 47]
          [6, 88, 164, 63, 234, 224, 70, 62, 243, 105, 216, 145, 157, 243, 11, 35])
     = Inr (replicate 10 1 @ replicate 10 2)"
proof -
  have inv: "\<forall>x. example_D (example_E x) = x"
    by (simp add: example_D_def example_E_def)
  have l1: "1 \<le> length [1, 2, 3 :: byte]" and l2: "length [1, 2, 3 :: byte] \<le> 15"
    and t1: "(8 :: int) \<le> 16" and t2: "(16 :: int) \<le> 16"
    by simp_all
  have v1: "fst (one_shot example_lib example_session [9, 9, 8] (replicate 10 1 @ replicate 10 2))
     = Inr ([0, 46, 187, 168, 159, 109, 127, 113, 6, 229, 201, 154, 187, 182, 244, 18, 15, 213, 195, 47],
            Some [6, 88, 164, 63, 234, 224, 70, 62, 243, 105, 216, 145, 157, 243, 11, 35])"
    by code_simp
  have v2: "fst (one_shot_open example_lib [7] example_session [9, 9, 8]
          [0, 46, 187, 168, 159, 109, 127, 113, 6, 229, 201, 154, 187, 182, 244, 18, 15, 213, 195, 47]
          [6, 88, 164, 63, 234, 224, 70, 62, 243, 105, 216, 145, 157, 243, 11, 35])
     = Inr (replicate 10 1 @ replicate 10 2)"
    by code_simp
  from encrypt_decrypt_round_trip [where E=example_E and D=example_D
      and h="\<lambda>key data. key @ data" and N="[1, 2, 3]" and t=16 and A="[9, 9, 8]"
      and P="replicate 10 1 @ replicate 10 2" and secret="[7]", OF inv l1 l2 t1 t2]
  have "\<exists>s0 C T.
      OcbMode_init example_lib [1, 2, 3] 16 = Inr s0 \<and>
      fst (one_shot example_lib s0 [9, 9, 8] (replicate 10 1 @ replicate 10 2)) = Inr (C, Some T) \<and>
      fst (one_shot_open example_lib [7] s0 [9, 9, 8] C T) = Inr (replicate 10 1 @ replicate 10 2)"
    by (simp only: example_lib_def)
  with inv l1 l2 t1 t2 v1 v2 show ?thesis by blast
qed

end
